theory Spec2Isabelle
  imports Main
begin

section \<open>Strings as Python sees them\<close>

text \<open>
  Strings are lists of 8-bit characters, read as the code points below 256.
  \<open>is_space\<close> is \<^verbatim>\<open>str.isspace\<close> on those code points, \<open>strip\<close> is
  \<^verbatim>\<open>str.strip()\<close> with no argument.
\<close>

definition is_space :: "char \<Rightarrow> bool" where
  "is_space c = ((of_char c :: nat) \<in> {9, 10, 11, 12, 13, 28, 29, 30, 31, 32, 133, 160})"

definition strip :: "string \<Rightarrow> string" where
  "strip s = rev (dropWhile is_space (rev (dropWhile is_space s)))"

definition is_digit :: "char \<Rightarrow> bool" where
  "is_digit c = (48 \<le> (of_char c :: nat) \<and> (of_char c :: nat) \<le> 57)"

definition digit_val :: "char \<Rightarrow> int" where
  "digit_val c = int (of_char c) - 48"

text \<open>
  \<^verbatim>\<open>str.upper()\<close> and \<^verbatim>\<open>str.lower()\<close> on the code points below 256. The sharp s
  (223) becomes \<open>SS\<close>. The micro sign (181) and the y with diaeresis (255) have
  their capitals above 255; they are left as they are, which keeps them apart
  from every ASCII keyword, as their capitals are.
\<close>

definition upper_char :: "char \<Rightarrow> string" where
  "upper_char c =
     (let n = (of_char c :: nat) in
      if 97 \<le> n \<and> n \<le> 122 then [char_of (n - 32)]
      else if n = 223 then ''SS''
      else if 224 \<le> n \<and> n \<le> 254 \<and> n \<noteq> 247 then [char_of (n - 32)]
      else [c])"

definition upper :: "string \<Rightarrow> string" where
  "upper s = concat (map upper_char s)"

definition lower_char :: "char \<Rightarrow> char" where
  "lower_char c =
     (let n = (of_char c :: nat) in
      if 65 \<le> n \<and> n \<le> 90 then char_of (n + 32)
      else if 192 \<le> n \<and> n \<le> 222 \<and> n \<noteq> 215 then char_of (n + 32)
      else c)"

definition lower :: "string \<Rightarrow> string" where
  "lower s = map lower_char s"

text \<open>
  The body of a decimal literal accepted by \<^verbatim>\<open>int(str)\<close>: digits, with single
  underscores allowed between two digits.
\<close>

fun digits_ok :: "string \<Rightarrow> bool" where
  "digits_ok [] = False"
| "digits_ok [c] = is_digit c"
| "digits_ok (c # d # cs) =
     (is_digit c \<and> (if d = CHR ''_'' then digits_ok cs else digits_ok (d # cs)))"

definition digits_value :: "string \<Rightarrow> int" where
  "digits_value s = foldl (\<lambda>a c. 10 * a + digit_val c) 0 (filter (\<lambda>c. c \<noteq> CHR ''_'') s)"

text \<open>
  \<^verbatim>\<open>int(s)\<close> in base 10, \<open>None\<close> being its \<^verbatim>\<open>ValueError\<close>. The white space
  that \<^verbatim>\<open>int\<close> passes over at both ends is not that of \<^verbatim>\<open>str.strip\<close>: the four
  separators 28 to 31 are white space for \<^verbatim>\<open>strip\<close> and for \<^verbatim>\<open>isspace\<close>, and an
  invalid literal for \<^verbatim>\<open>int\<close>. After the white space one sign is allowed, then
  the digits, with nothing between the sign and the first digit. A literal
  of more than 4300 digits (underscores not counted, leading zeros counted) is
  refused: the default limit of the interpreter on the conversion of strings
  to integers.
\<close>

definition is_int_space :: "char \<Rightarrow> bool" where
  "is_int_space c = ((of_char c :: nat) \<in> {9, 10, 11, 12, 13, 32, 133, 160})"

definition max_str_digits :: nat where
  "max_str_digits = 4300"

definition py_int :: "string \<Rightarrow> int option" where
  "py_int s =
     (case rev (dropWhile is_int_space (rev (dropWhile is_int_space s))) of
        [] \<Rightarrow> None
      | c # r \<Rightarrow>
          (let body = (if c = CHR ''-'' \<or> c = CHR ''+'' then r else c # r)
           in if \<not> digits_ok body then None
              else if length (filter is_digit body) > max_str_digits then None
              else Some (if c = CHR ''-'' then - digits_value body else digits_value body)))"

text \<open>
  \<^verbatim>\<open>list(range(start, stop, step))\<close> for a positive step, with the length computed
  as the interpreter does.
\<close>

definition py_range :: "int \<Rightarrow> int \<Rightarrow> int \<Rightarrow> int list" where
  "py_range start stop step =
     (if start < stop
      then map (\<lambda>i. start + int i * step) [0..<nat ((stop - start + step - 1) div step)]
      else [])"

section \<open>Calendar expressions\<close>

text \<open>
  Every failure of \<^verbatim>\<open>_parse_time_field\<close> is a \<^verbatim>\<open>ValueError\<close>; the constructors keep
  the four messages apart: "Invalid ... step expression", "Invalid ... step",
  "Invalid ... value" and "... out of range". The label argument only feeds the
  messages and is left out. \<open>InvalidLiteral\<close> is the \<^verbatim>\<open>ValueError\<close> of a bare
  \<^verbatim>\<open>int()\<close> call, on a cell of a schedule row or on a number of an action
  step. The next three belong to the scheduler: the \<^verbatim>\<open>ValueError\<close> of
  \<^verbatim>\<open>datetime.replace\<close>, the \<^verbatim>\<open>OverflowError\<close> of a date sum, and the \<^verbatim>\<open>TypeError\<close>
  of ordering a string against a \<^verbatim>\<open>datetime\<close>. \<open>IntervalOverflow\<close> is the
  \<^verbatim>\<open>OverflowError\<close> of \<^verbatim>\<open>GLib.timeout_add_seconds\<close> for an interval that does not fit
  its unsigned 32-bit argument.
\<close>

datatype error =
  InvalidStepExpression | InvalidStep | InvalidValue | OutOfRange | InvalidLiteral
  | ReplaceOutOfRange | DateOverflow | StrDatetimeCompare | IntervalOverflow

definition parse_time_field :: "string \<Rightarrow> int \<Rightarrow> error + int list" where
  "parse_time_field field max_value =
     (let v = strip field in
      if v = [] then Inr [0]
      else if v = ''*'' then Inr (py_range 0 (max_value + 1) 1)
      else if take 2 v = ''*/'' then
        (case py_int (drop 2 v) of
           None \<Rightarrow> Inl InvalidStepExpression
         | Some step \<Rightarrow>
             if step \<le> 0 then Inl InvalidStep
             else Inr (py_range 0 (max_value + 1) step))
      else
        (case py_int v of
           None \<Rightarrow> Inl InvalidValue
         | Some parsed \<Rightarrow>
             if \<not> (0 \<le> parsed \<and> parsed \<le> max_value) then Inl OutOfRange
             else Inr [parsed]))"

section \<open>Schedule entries and the loading of schedule rows\<close>

text \<open>
  The dataclass \<^verbatim>\<open>ScheduleEntry\<close>. The field \<^verbatim>\<open>text\<close> is called \<open>toast_text\<close>
  here and \<^verbatim>\<open>random\<close> is called \<open>random_minutes\<close>; the other fields keep their names.
\<close>

record ScheduleEntry =
  monday :: int
  tuesday :: int
  wednesday :: int
  thursday :: int
  friday :: int
  saturday :: int
  sunday :: int
  hour :: int
  minute :: int
  random_minutes :: int
  duration :: int
  toast_text :: string
  action :: string
  data :: string
  hour_expr :: string
  minute_expr :: string

text \<open>\<^verbatim>\<open>int((v or "0").strip() or "0")\<close>, the reading of a numeric cell.\<close>

definition int_cell :: "string \<Rightarrow> int option" where
  "int_cell v =
     py_int (let t = strip (if v = [] then ''0'' else v) in if t = [] then ''0'' else t)"

text \<open>\<^verbatim>\<open>(row + [""] * max_len)[:max_len]\<close>\<close>

definition pad_row :: "nat \<Rightarrow> string list \<Rightarrow> string list" where
  "pad_row max_len row = take max_len (row @ replicate max_len [])"

text \<open>The two nested loops over the hours and the minutes of one row.\<close>

definition expand_entries ::
  "int list \<Rightarrow> int \<Rightarrow> int \<Rightarrow> string \<Rightarrow> string \<Rightarrow> string \<Rightarrow> string \<Rightarrow> string \<Rightarrow>
   int list \<Rightarrow> int list \<Rightarrow> ScheduleEntry list" where
  "expand_entries flags rnd dur txt act dat hour_raw minute_raw hours minutes =
     concat (map (\<lambda>h. map (\<lambda>m.
       \<lparr> monday = flags ! 0, tuesday = flags ! 1, wednesday = flags ! 2,
         thursday = flags ! 3, friday = flags ! 4, saturday = flags ! 5, sunday = flags ! 6,
         hour = h, minute = m, random_minutes = rnd, duration = dur,
         toast_text = txt, action = act, data = dat,
         hour_expr = strip hour_raw, minute_expr = strip minute_raw \<rparr>) minutes) hours)"

text \<open>
  The body of the \<^verbatim>\<open>try\<close> of \<^verbatim>\<open>load_schedule\<close> for one row, in the order of the
  source: the seven weekday flags, the random and duration cells, the text,
  action and data cells, then the hour and minute expressions. \<open>Inl\<close> is the
  exception that makes the loader skip the row. The padded row has at least 14
  cells and more than \<open>hh_idx\<close> and \<open>mm_idx\<close>, so every index is in range.
\<close>

definition parse_row :: "nat \<Rightarrow> nat \<Rightarrow> string list \<Rightarrow> error + ScheduleEntry list" where
  "parse_row hh_idx mm_idx row0 =
     (let max_len = max 14 (max (hh_idx + 1) (mm_idx + 1));
          row = pad_row max_len row0
      in case those (map int_cell (take 7 row)) of
           None \<Rightarrow> Inl InvalidLiteral
         | Some flags \<Rightarrow>
     (let hour_raw = row ! hh_idx; minute_raw = row ! mm_idx
      in case int_cell (row ! 9) of
           None \<Rightarrow> Inl InvalidLiteral
         | Some rnd \<Rightarrow>
     (case int_cell (row ! 10) of
           None \<Rightarrow> Inl InvalidLiteral
         | Some dur \<Rightarrow>
     (let txt = strip (row ! 11); act = strip (row ! 12); dat = strip (row ! 13)
      in case parse_time_field hour_raw 23 of
           Inl e \<Rightarrow> Inl e
         | Inr hours \<Rightarrow>
     (case parse_time_field minute_raw 59 of
           Inl e \<Rightarrow> Inl e
         | Inr minutes \<Rightarrow>
             Inr (expand_entries flags rnd dur txt act dat hour_raw minute_raw
                    hours minutes))))))"

text \<open>\<^verbatim>\<open>not row or all(c.strip() == "" for c in row)\<close>: such a line is passed over.\<close>

definition blank_row :: "string list \<Rightarrow> bool" where
  "blank_row row = (row = [] \<or> list_all (\<lambda>c. strip c = []) row)"

definition load_rows :: "nat \<Rightarrow> nat \<Rightarrow> string list list \<Rightarrow> ScheduleEntry list" where
  "load_rows hh_idx mm_idx rows =
     concat (map (\<lambda>row.
       if blank_row row then []
       else case parse_row hh_idx mm_idx row of Inl e \<Rightarrow> [] | Inr es \<Rightarrow> es) rows)"

text \<open>
  \<^verbatim>\<open>header_lookup.get(name, default)\<close>, where the dictionary comprehension maps each
  stripped, upper-cased column title to its index and a later column wins.
\<close>

definition header_index :: "string \<Rightarrow> nat \<Rightarrow> string list \<Rightarrow> nat" where
  "header_index name dflt header =
     foldl (\<lambda>found (idx, col). if upper (strip col) = name then idx else found)
       dflt (enumerate 0 header)"

text \<open>
  \<^verbatim>\<open>load_schedule\<close> on the decoded lines of the file: the first line is the header,
  and a file with no line gives no entry. The per-weekday index \<^verbatim>\<open>by_wd\<close> that the
  function also returns is read nowhere and is left out.
\<close>

fun load_schedule :: "string list list \<Rightarrow> ScheduleEntry list" where
  "load_schedule [] = []"
| "load_schedule (header # rows) =
     load_rows (header_index ''HH'' 7 header) (header_index ''MM'' 8 header) rows"

section \<open>Local date and time\<close>

text \<open>
  A naive \<^verbatim>\<open>datetime\<close>: the date as its proleptic Gregorian ordinal
  (\<^verbatim>\<open>date.toordinal()\<close>, day 1 is a Monday) and the time of day. The fields
  \<^verbatim>\<open>hour\<close>, \<^verbatim>\<open>minute\<close>, \<^verbatim>\<open>second\<close> carry the prefix \<open>dt_\<close> here. A value read
  from the clock has its time fields in range.
\<close>

record datetime =
  ordinal :: int
  dt_hour :: int
  dt_minute :: int
  dt_second :: int
  microsecond :: int

definition valid_datetime :: "datetime \<Rightarrow> bool" where
  "valid_datetime d =
     (1 \<le> ordinal d \<and> ordinal d \<le> 3652059 \<and> 0 \<le> dt_hour d \<and> dt_hour d < 24 \<and>
      0 \<le> dt_minute d \<and> dt_minute d < 60 \<and> 0 \<le> dt_second d \<and> dt_second d < 60 \<and>
      0 \<le> microsecond d \<and> microsecond d < 1000000)"

text \<open>\<^verbatim>\<open>weekday()\<close>: Monday is 0, Sunday is 6.\<close>

definition weekday :: "datetime \<Rightarrow> nat" where
  "weekday d = nat ((ordinal d + 6) mod 7)"

text \<open>
  \<^verbatim>\<open>now.replace(hour=h, minute=m, second=0, microsecond=0)\<close>: a \<^verbatim>\<open>ValueError\<close> when
  the hour or the minute is out of range.
\<close>

definition replace_hm :: "datetime \<Rightarrow> int \<Rightarrow> int \<Rightarrow> error + datetime" where
  "replace_hm d h m =
     (if \<not> (0 \<le> h \<and> h \<le> 23) \<or> \<not> (0 \<le> m \<and> m \<le> 59) then Inl ReplaceOutOfRange
      else Inr (d\<lparr>dt_hour := h, dt_minute := m, dt_second := 0, microsecond := 0\<rparr>))"

text \<open>\<^verbatim>\<open>now.replace(microsecond=0)\<close>\<close>

definition no_microsecond :: "datetime \<Rightarrow> datetime" where
  "no_microsecond d = d\<lparr>microsecond := 0\<rparr>"

text \<open>
  \<^verbatim>\<open>d + timedelta(minutes=k)\<close>: the seconds of the day are carried into the date;
  an \<^verbatim>\<open>OverflowError\<close> when the date leaves the years 1 to 9999.
\<close>

definition add_minutes :: "datetime \<Rightarrow> int \<Rightarrow> error + datetime" where
  "add_minutes d k =
     (let secs = dt_hour d * 3600 + dt_minute d * 60 + dt_second d + k * 60;
          day = ordinal d + secs div 86400;
          r = secs mod 86400
      in if day < 1 \<or> 3652059 < day then Inl DateOverflow
         else Inr (d\<lparr>ordinal := day, dt_hour := r div 3600, dt_minute := (r mod 3600) div 60,
                       dt_second := r mod 60\<rparr>))"

text \<open>Microseconds since the start of day 0, so that \<open>a - b\<close> is the \<^verbatim>\<open>timedelta\<close>.\<close>

definition to_us :: "datetime \<Rightarrow> int" where
  "to_us d =
     ((ordinal d * 86400 + dt_hour d * 3600 + dt_minute d * 60 + dt_second d) * 1000000
      + microsecond d)"

text \<open>\<^verbatim>\<open>str(n)\<close> for an integer, and the format \<^verbatim>\<open>{n:02d}\<close> for one that is not negative.\<close>

function dec :: "nat \<Rightarrow> string" where
  "dec n = (if n < 10 then [char_of (48 + n)] else dec (n div 10) @ [char_of (48 + n mod 10)])"
  by pat_completeness auto
termination
  by (relation "measure (\<lambda>n. n)") auto

definition str_int :: "int \<Rightarrow> string" where
  "str_int i = (if i < 0 then CHR ''-'' # dec (nat (- i)) else dec (nat i))"

definition fmt_02d :: "nat \<Rightarrow> string" where
  "fmt_02d n = (let d = dec n in replicate (2 - length d) (CHR ''0'') @ d)"

section \<open>The player: state, collaborators and playback queue\<close>

text \<open>
  A step of an action script as \<^verbatim>\<open>_run_steps_chain\<close> sees it: \<open>Single op v\<close> is a
  dictionary with the one key \<open>op\<close>, \<open>v\<close> being \<^verbatim>\<open>str(val)\<close>; \<open>Malformed\<close> is any
  other JSON value (not a dictionary, or not exactly one key).
\<close>

datatype step = Malformed | Single string string

text \<open>
  What the player does to its collaborators, in order: the media pipeline
  (\<open>PlayFile\<close> is the URI set and the state \<^verbatim>\<open>PLAYING\<close> requested), the clock-only
  display (\<open>StopToClock\<close>), the toast label, and the lines it prints. \<open>Fired\<close> is
  the debug line printed when a schedule entry fires, tagged with the entry's
  index.
\<close>

datatype event =
    PlayFile string
  | StopToClock
  | ShowToast string
  | Fired nat
  | LogSkipping string
  | LogNotFound string
  | LogQueued string
  | LogMissingHourFile string
  | LogIgnoringRepeat string
  | LogAlreadyRunningIgnored string
  | LogUnknownAction string
  | LogAlreadyRunning "string option"
  | LogStarting string
  | LogFinished "string option"
  | LogMalformedStep
  | LogWaiting int
  | LogUnknownOp string

text \<open>
  The attributes of \<^verbatim>\<open>FullscreenPlayer\<close> that the scheduler, the action runner and
  the playback queue use, without the leading underscore. Beside them:
  \<^item> \<open>fs_exists\<close>, the file system as \<^verbatim>\<open>os.path.exists\<close> answers;
  \<^item> \<open>rng_draws\<close> and \<open>rng_pos\<close>, the state of the module \<^verbatim>\<open>random\<close>: an arbitrary
    infinite sequence of naturals and the position of the next one;
  \<^item> the GLib main loop: the pending idle callbacks and the pending timeouts
    that continue a chain of steps, each with its source id, and the next id;
  \<^item> \<open>trace\<close>, the events so far.
\<close>

record player =
  schedule :: "ScheduleEntry list"
  actions_script :: "string \<rightharpoonup> step list"
  today_key :: int
  today_offsets :: "nat \<rightharpoonup> int"
  today_fired :: "nat \<rightharpoonup> bool"
  play_queue :: "string list"
  playing :: bool
  last_seen_hour :: int
  last_played_hour :: "int option"
  action_running :: bool
  current_action_name :: "string option"
  manual_action_last_trigger :: "string \<rightharpoonup> datetime"
  step_timer_source :: "nat option"
  fs_exists :: "string \<Rightarrow> bool"
  rng_draws :: "nat \<Rightarrow> nat"
  rng_pos :: nat
  idle_sources :: "(nat \<times> step list \<times> nat) list"
  timeout_sources :: "(nat \<times> int \<times> step list \<times> nat) list"
  next_source_id :: nat
  trace :: "event list"

definition emit :: "event \<Rightarrow> player \<Rightarrow> player" where
  "emit ev s = s\<lparr>trace := trace s @ [ev]\<rparr>"

text \<open>
  \<^verbatim>\<open>random.randint(a, b)\<close> for \<open>a \<le> b\<close>: the next natural of the sequence, reduced
  into the range. Every value of the range is the outcome for some sequence.
\<close>

definition randint :: "int \<Rightarrow> int \<Rightarrow> player \<Rightarrow> int \<times> player" where
  "randint a b s =
     (a + int (rng_draws s (rng_pos s) mod nat (b - a + 1)), s\<lparr>rng_pos := rng_pos s + 1\<rparr>)"

text \<open>\<^verbatim>\<open>not path or not os.path.exists(path)\<close>\<close>

definition path_missing :: "player \<Rightarrow> string \<Rightarrow> bool" where
  "path_missing s path = (path = [] \<or> \<not> fs_exists s path)"

text \<open>
  \<^verbatim>\<open>play_file\<close> and \<^verbatim>\<open>try_play_next_in_queue\<close> call each other; the queue gets
  shorter at every round.
\<close>

function play_file :: "string \<Rightarrow> player \<Rightarrow> player"
  and try_play_next_in_queue :: "player \<Rightarrow> player" where
  "play_file path s =
     (if path_missing s path then try_play_next_in_queue (emit (LogNotFound path) s)
      else (emit (PlayFile path) s)\<lparr>playing := True\<rparr>)"
| "try_play_next_in_queue s =
     (case play_queue s of
        next_path # rest \<Rightarrow> play_file next_path (s\<lparr>play_queue := rest\<rparr>)
      | [] \<Rightarrow> emit StopToClock (s\<lparr>playing := False\<rparr>))"
  by pat_completeness auto
termination
  by (relation "measure (\<lambda>x. case x of Inl (p, s) \<Rightarrow> 2 * length (play_queue s) + 1
                                       | Inr s \<Rightarrow> 2 * length (play_queue s))")
     (auto simp: emit_def)

definition enqueue_file :: "string \<Rightarrow> player \<Rightarrow> player" where
  "enqueue_file path s =
     (if path_missing s path then emit (LogSkipping path) s
      else if \<not> playing s then play_file path s
      else emit (LogQueued path) (s\<lparr>play_queue := play_queue s @ [path]\<rparr>))"

text \<open>The bus callbacks for end of stream and for an error of the pipeline.\<close>

definition on_eos :: "player \<Rightarrow> player" where
  "on_eos s = try_play_next_in_queue (s\<lparr>playing := False\<rparr>)"

definition on_error :: "player \<Rightarrow> player" where
  "on_error s = try_play_next_in_queue (s\<lparr>playing := False\<rparr>)"

text \<open>
  \<^verbatim>\<open>show_toast\<close>: nothing for an empty message. The timer that hides the label
  again has a handle of its own and is left out.
\<close>

definition show_toast :: "string \<Rightarrow> player \<Rightarrow> player" where
  "show_toast message s = (if message = [] then s else emit (ShowToast message) s)"

text \<open>The hour announcement: \<^verbatim>\<open>path_for_hour\<close> and \<^verbatim>\<open>enqueue_hour_video\<close>.\<close>

definition FALLBACK_PATH :: string where
  "FALLBACK_PATH = ''/home/tme520/Videos/LPS/moves/c10 - sitting 1.mp4''"

definition path_for_hour :: "player \<Rightarrow> int \<Rightarrow> string" where
  "path_for_hour s h =
     (let candidate = ''/home/tme520/Videos/LPS/announcements/FR'' @ ''/'' @
                      ''c10 - '' @ fmt_02d (nat h) @ ''h.mp4''
      in if fs_exists s candidate then candidate else FALLBACK_PATH)"

definition enqueue_hour_video :: "int \<Rightarrow> player \<Rightarrow> player" where
  "enqueue_hour_video h s =
     (if last_played_hour s = Some h then s
      else let path = path_for_hour s h
           in if path_missing s path then emit (LogMissingHourFile path) s
              else (enqueue_file path s)\<lparr>last_played_hour := Some h\<rparr>)"

section \<open>The action runner\<close>

text \<open>
  \<^verbatim>\<open>expand_play_random\<close>. \<open>match_range\<close> matches the pattern
  \<^verbatim>\<open>\[(\d+)\s*(?:\.\.|\.)\s*(\d+)\]\<close> at the head of a string and gives the two
  groups of digits and the length of the match. Digits, white space, the dot and the
  bracket are pairwise different characters, so the greedy reading is the only
  one and backtracking never finds another match.
\<close>

definition match_range :: "string \<Rightarrow> (string \<times> string \<times> nat) option" where
  "match_range s =
     (case s of
        [] \<Rightarrow> None
      | c # r \<Rightarrow>
          if c \<noteq> CHR ''['' then None
          else
            let d1 = takeWhile is_digit r; r1 = dropWhile is_digit r;
                w1 = takeWhile is_space r1; r2 = dropWhile is_space r1
            in if d1 = [] then None
               else
                 (case r2 of
                    [] \<Rightarrow> None
                  | p # r3 \<Rightarrow>
                      if p \<noteq> CHR ''.'' then None
                      else
                        let two = (case r3 of [] \<Rightarrow> False | q # _ \<Rightarrow> q = CHR ''.'');
                            r4 = (if two then tl r3 else r3);
                            w2 = takeWhile is_space r4; r5 = dropWhile is_space r4;
                            d2 = takeWhile is_digit r5; r6 = dropWhile is_digit r5
                        in if d2 = [] then None
                           else
                             (case r6 of
                                [] \<Rightarrow> None
                              | b # _ \<Rightarrow>
                                  if b \<noteq> CHR '']'' then None
                                  else Some (d1, d2,
                                             1 + length d1 + length w1 + (if two then 2 else 1)
                                               + length w2 + length d2 + 1))))"

text \<open>
  \<^verbatim>\<open>_RANGE_RE.sub(repl, pattern)\<close>, from left to right. The first argument counts
  the characters of the current match that are still to be passed over. The
  function \<^verbatim>\<open>repl\<close> converts the two groups with \<^verbatim>\<open>int()\<close>, which refuses a
  group of more than 4300 digits; the exception leaves the substitution, and
  the numbers drawn before it stay drawn.
\<close>

fun expand_from :: "nat \<Rightarrow> string \<Rightarrow> player \<Rightarrow> (error + string) \<times> player" where
  "expand_from k [] s = (Inr [], s)"
| "expand_from (Suc k) (c # cs) s = expand_from k cs s"
| "expand_from 0 (c # cs) s =
     (case match_range (c # cs) of
        Some (g1, g2, len) \<Rightarrow>
          (case py_int g1 of
             None \<Rightarrow> (Inl InvalidLiteral, s)
           | Some a \<Rightarrow>
               (case py_int g2 of
                  None \<Rightarrow> (Inl InvalidLiteral, s)
                | Some b \<Rightarrow>
                    (let (n, s1) = randint (min a b) (max a b) s;
                         (out, s2) = expand_from (len - 1) cs s1
                     in (case out of Inl e \<Rightarrow> Inl e | Inr t \<Rightarrow> Inr (str_int n @ t), s2))))
      | None \<Rightarrow>
          (let (out, s1) = expand_from 0 cs s
           in (case out of Inl e \<Rightarrow> Inl e | Inr t \<Rightarrow> Inr (c # t), s1)))"

definition expand_play_random :: "string \<Rightarrow> player \<Rightarrow> (error + string) \<times> player" where
  "expand_play_random pattern s = expand_from 0 pattern s"

text \<open>
  The GLib main loop. \<^verbatim>\<open>idle_add\<close> and \<^verbatim>\<open>timeout_add_seconds\<close> register a
  continuation of the chain under a fresh source id; \<^verbatim>\<open>source_remove\<close> drops
  the source with the given id. The interval of \<^verbatim>\<open>timeout_add_seconds\<close> is an
  unsigned 32-bit integer of the C library: the binding raises an
  \<^verbatim>\<open>OverflowError\<close> for a number outside \<open>0..4294967295\<close>, and no source is
  registered.
\<close>

definition idle_add :: "step list \<Rightarrow> nat \<Rightarrow> player \<Rightarrow> player" where
  "idle_add steps idx s =
     s\<lparr>idle_sources := idle_sources s @ [(next_source_id s, steps, idx)],
       next_source_id := next_source_id s + 1\<rparr>"

definition guint_max :: int where
  "guint_max = 4294967295"

definition timeout_add_seconds ::
  "int \<Rightarrow> step list \<Rightarrow> nat \<Rightarrow> player \<Rightarrow> error + (nat \<times> player)" where
  "timeout_add_seconds seconds steps idx s =
     (if seconds < 0 \<or> guint_max < seconds then Inl IntervalOverflow
      else Inr (next_source_id s,
                s\<lparr>timeout_sources := timeout_sources s @ [(next_source_id s, seconds, steps, idx)],
                  next_source_id := next_source_id s + 1\<rparr>))"

definition source_remove :: "nat \<Rightarrow> player \<Rightarrow> player" where
  "source_remove h s =
     s\<lparr>idle_sources := filter (\<lambda>src. fst src \<noteq> h) (idle_sources s),
       timeout_sources := filter (\<lambda>src. fst src \<noteq> h) (timeout_sources s)\<rparr>"

text \<open>\<^verbatim>\<open>_cancel_step_timer\<close>: the handle counts when it is neither \<^verbatim>\<open>None\<close> nor 0.\<close>

definition cancel_step_timer :: "player \<Rightarrow> player" where
  "cancel_step_timer s =
     (case step_timer_source s of
        None \<Rightarrow> s
      | Some h \<Rightarrow> if h = 0 then s else (source_remove h s)\<lparr>step_timer_source := None\<rparr>)"

text \<open>
  The number read from the value of a \<^verbatim>\<open>WAIT\<close> step:
  \<^verbatim>\<open>re.search(r"(\d+)", str(val).lower())\<close>, the first run of digits, given to
  \<^verbatim>\<open>int()\<close>, or 0 without a digit.
\<close>

definition wait_minutes :: "string \<Rightarrow> error + int" where
  "wait_minutes v =
     (let run = takeWhile is_digit (dropWhile (\<lambda>c. \<not> is_digit c) (lower v))
      in if run = [] then Inr 0
         else (case py_int run of None \<Rightarrow> Inl InvalidLiteral | Some m \<Rightarrow> Inr m))"

text \<open>
  One call of \<^verbatim>\<open>_run_steps_chain\<close>. The function never calls itself: the next
  step is left to the main loop as an idle callback, or as a timeout after a
  \<^verbatim>\<open>WAIT\<close>. The first component of the result is the exception that leaves the
  call, if any; the state is the one reached when it was raised.
\<close>

definition run_steps_chain :: "step list \<Rightarrow> nat \<Rightarrow> player \<Rightarrow> error option \<times> player" where
  "run_steps_chain steps idx s =
     (if idx \<ge> length steps
      then (None, (emit (LogFinished (current_action_name s)) s)
                    \<lparr>action_running := False, current_action_name := None\<rparr>)
      else
        (case steps ! idx of
           Malformed \<Rightarrow> (None, idle_add steps (idx + 1) (emit LogMalformedStep s))
         | Single op v \<Rightarrow>
             (let op_u = upper (strip op)
              in if op_u = ''PLAY'' then (None, idle_add steps (idx + 1) (enqueue_file v s))
                 else if op_u = ''PLAY-RANDOM'' then
                   (case expand_play_random v s of
                      (Inl e, s1) \<Rightarrow> (Some e, s1)
                    | (Inr path, s1) \<Rightarrow> (None, idle_add steps (idx + 1) (enqueue_file path s1)))
                 else if op_u = ''WAIT'' then
                   (case wait_minutes v of
                      Inl e \<Rightarrow> (Some e, s)
                    | Inr minutes \<Rightarrow>
                        (let seconds = minutes * 60;
                             s1 = cancel_step_timer (emit (LogWaiting minutes) s)
                         in case timeout_add_seconds seconds steps (idx + 1) s1 of
                              Inl e \<Rightarrow> (Some e, s1)
                            | Inr (h, s2) \<Rightarrow> (None, s2\<lparr>step_timer_source := Some h\<rparr>)))
                 else if op_u = ''TOAST-MESSAGE'' then
                   (None, idle_add steps (idx + 1) (show_toast v s))
                 else (None, idle_add steps (idx + 1) (emit (LogUnknownOp op) s)))))"

definition after_wait_continue :: "step list \<Rightarrow> nat \<Rightarrow> player \<Rightarrow> error option \<times> player" where
  "after_wait_continue steps next_idx s =
     run_steps_chain steps next_idx (s\<lparr>step_timer_source := None\<rparr>)"

text \<open>\<^verbatim>\<open>run_action\<close>: \<^verbatim>\<open>not steps\<close> holds for a missing name and for an empty list.\<close>

definition run_action :: "string \<Rightarrow> player \<Rightarrow> error option \<times> player" where
  "run_action action_name s =
     (case actions_script s action_name of
        None \<Rightarrow> (None, emit (LogUnknownAction action_name) s)
      | Some steps \<Rightarrow>
          if steps = [] then (None, emit (LogUnknownAction action_name) s)
          else
            (let s1 = (if action_running s
                       then emit (LogAlreadyRunning (current_action_name s)) s else s);
                 s2 = s1\<lparr>action_running := True, current_action_name := Some action_name\<rparr>
             in run_steps_chain steps 0 (emit (LogStarting action_name) s2)))"

text \<open>
  \<^verbatim>\<open>_play_manual_action_once\<close>, with the reading of the clock as an argument.
  \<open>debounced\<close> is its first condition,
  \<^verbatim>\<open>last_trigger and (now - last_trigger) < timedelta(seconds=1)\<close>; a stored
  \<^verbatim>\<open>datetime\<close> is always true as a condition.
\<close>

definition debounced :: "string \<Rightarrow> datetime \<Rightarrow> player \<Rightarrow> bool" where
  "debounced action_name now s =
     (case manual_action_last_trigger s action_name of
        None \<Rightarrow> False
      | Some last_trigger \<Rightarrow> to_us now - to_us last_trigger < 1000000)"

definition play_manual_action_once ::
  "string \<Rightarrow> datetime \<Rightarrow> player \<Rightarrow> error option \<times> player" where
  "play_manual_action_once action_name now s =
     (if debounced action_name now s
      then (None, emit (LogIgnoringRepeat action_name) s)
      else if action_running s \<and> current_action_name s = Some action_name
      then (None, emit (LogAlreadyRunningIgnored action_name) s)
      else run_action action_name
             (s\<lparr>manual_action_last_trigger :=
                  (manual_action_last_trigger s)(action_name \<mapsto> now)\<rparr>))"

section \<open>Daily offsets, the scheduler and the main loop\<close>

text \<open>
  The loop of \<^verbatim>\<open>_seed_today_offsets\<close> over \<^verbatim>\<open>enumerate(self.schedule)\<close>: an offset is
  drawn only for an index that has none; the fired flag is set to \<^verbatim>\<open>False\<close>
  for every index, after the \<^verbatim>\<open>if\<close>.
\<close>

fun seed_entries :: "(nat \<times> ScheduleEntry) list \<Rightarrow> player \<Rightarrow> player" where
  "seed_entries [] s = s"
| "seed_entries ((idx, e) # rest) s =
     (let s1 = (if today_offsets s idx = None
                then (let rnd = max 0 (random_minutes e);
                          (off, s') = (if rnd > 0 then randint 0 rnd s else (0, s))
                      in s'\<lparr>today_offsets := (today_offsets s')(idx \<mapsto> off)\<rparr>)
                else s)
      in seed_entries rest (s1\<lparr>today_fired := (today_fired s1)(idx \<mapsto> False)\<rparr>))"

definition seed_today_offsets :: "bool \<Rightarrow> player \<Rightarrow> player" where
  "seed_today_offsets force s =
     seed_entries (enumerate 0 (schedule s))
       (if force then s\<lparr>today_offsets := Map.empty, today_fired := Map.empty\<rparr> else s)"

text \<open>The weekday flags of an entry, Monday first; a flag counts when it is not 0.\<close>

definition weekday_flags :: "ScheduleEntry \<Rightarrow> int list" where
  "weekday_flags e = [monday e, tuesday e, wednesday e, thursday e, friday e, saturday e, sunday e]"

text \<open>
  \<^verbatim>\<open>fire_dt\<close>: the entry's hour and minute on the date of \<open>now\<close>, plus the offset
  of the day (0 for an index without one).
\<close>

definition fire_dt :: "datetime \<Rightarrow> ScheduleEntry \<Rightarrow> int \<Rightarrow> error + datetime" where
  "fire_dt now e offset_min =
     (case replace_hm now (hour e) (minute e) of
        Inl err \<Rightarrow> Inl err
      | Inr d \<Rightarrow> add_minutes d offset_min)"

text \<open>What the scheduler does for an entry that fires.\<close>

definition fire_entry :: "nat \<Rightarrow> ScheduleEntry \<Rightarrow> player \<Rightarrow> error option \<times> player" where
  "fire_entry idx e s =
     (let s1 = (emit (Fired idx) s)\<lparr>today_fired := (today_fired s)(idx \<mapsto> True)\<rparr>;
          s2 = (if toast_text e \<noteq> [] then show_toast (toast_text e) s1 else s1)
      in if action e \<noteq> [] then run_action (action e) s2 else (None, s2))"

text \<open>
  The loop of \<^verbatim>\<open>_check_and_fire_scheduled\<close> in \<^verbatim>\<open>lps-c10-full.py\<close>. An exception
  leaves the loop; what was changed before it stays changed. The test is the
  source's \<^verbatim>\<open>now_no_ms == fire_dt\<close>.
\<close>

fun check_entries :: "datetime \<Rightarrow> (nat \<times> ScheduleEntry) list \<Rightarrow> player \<Rightarrow> error option \<times> player" where
  "check_entries now [] s = (None, s)"
| "check_entries now ((idx, e) # rest) s =
     (if weekday_flags e ! weekday now = 0 then check_entries now rest s
      else if today_fired s idx = Some True then check_entries now rest s
      else
        (case fire_dt now e (case today_offsets s idx of None \<Rightarrow> 0 | Some v \<Rightarrow> v) of
           Inl err \<Rightarrow> (Some err, s)
         | Inr fire \<Rightarrow>
             if no_microsecond now = fire
             then (case fire_entry idx e s of
                     (Some err, s') \<Rightarrow> (Some err, s')
                   | (None, s') \<Rightarrow> check_entries now rest s')
             else check_entries now rest s))"

definition check_and_fire_scheduled :: "datetime \<Rightarrow> player \<Rightarrow> error option \<times> player" where
  "check_and_fire_scheduled now s = check_entries now (enumerate 0 (schedule s)) s"

text \<open>
  The same loop in \<^verbatim>\<open>gtk-gstreamer-mp4-v11-2.py\<close>. Its test is
  \<^verbatim>\<open>now.strftime(...) >= fire_dt\<close>, a string ordered against a \<^verbatim>\<open>datetime\<close>, which
  raises a \<^verbatim>\<open>TypeError\<close> whenever it is reached.
\<close>

fun check_entries_v11 :: "datetime \<Rightarrow> (nat \<times> ScheduleEntry) list \<Rightarrow> player \<Rightarrow> error option \<times> player" where
  "check_entries_v11 now [] s = (None, s)"
| "check_entries_v11 now ((idx, e) # rest) s =
     (if weekday_flags e ! weekday now = 0 then check_entries_v11 now rest s
      else if today_fired s idx = Some True then check_entries_v11 now rest s
      else
        (case fire_dt now e (case today_offsets s idx of None \<Rightarrow> 0 | Some v \<Rightarrow> v) of
           Inl err \<Rightarrow> (Some err, s)
         | Inr fire \<Rightarrow> (Some StrDatetimeCompare, s)))"

text \<open>
  \<^verbatim>\<open>tick\<close>, with the reading of the clock as an argument: the day rollover, the
  hour change, then the schedule.
\<close>

definition tick :: "datetime \<Rightarrow> player \<Rightarrow> error option \<times> player" where
  "tick now s =
     (let s1 = (if ordinal now \<noteq> today_key s
                then seed_today_offsets True (s\<lparr>today_key := ordinal now\<rparr>) else s);
          s2 = (if dt_hour now \<noteq> last_seen_hour s1
                then enqueue_hour_video (dt_hour now) (s1\<lparr>last_seen_hour := dt_hour now\<rparr>)
                else s1)
      in check_and_fire_scheduled now s2)"

text \<open>
  What the main loop can deliver to the player: a tick, a pending idle callback
  or an elapsed timeout (named by its source id; the source is removed, as the
  callbacks return a false value), the end of a playback or its failure, a
  manual trigger of an action, a reload of the schedule (the key R, with the
  lines of the file), a non-forced seeding as at start-up, and a change of the
  file system. An exception that leaves a callback is printed by the main
  loop, and the state stays as it was when the exception was raised. The main
  loop then drops the source of the callback, so that no tick follows a tick
  that has raised; \<open>run\<close> accepts every sequence of inputs, those included that
  the main loop never delivers.
\<close>

datatype input =
    Tick datetime
  | IdleDispatch nat
  | TimeoutExpired nat
  | Eos
  | PipelineError
  | ManualTrigger string datetime
  | ReloadSchedule "string list list"
  | Seed
  | FsChange "string \<Rightarrow> bool"

definition handle :: "input \<Rightarrow> player \<Rightarrow> player" where
  "handle i s =
     (case i of
        Tick now \<Rightarrow> snd (tick now s)
      | IdleDispatch h \<Rightarrow>
          (case filter (\<lambda>src. fst src = h) (idle_sources s) of
             [] \<Rightarrow> s
           | (h', steps, idx) # others \<Rightarrow>
               snd (run_steps_chain steps idx
                 (s\<lparr>idle_sources := filter (\<lambda>src. fst src \<noteq> h) (idle_sources s)\<rparr>)))
      | TimeoutExpired h \<Rightarrow>
          (case filter (\<lambda>src. fst src = h) (timeout_sources s) of
             [] \<Rightarrow> s
           | (h', seconds, steps, idx) # others \<Rightarrow>
               snd (after_wait_continue steps idx
                 (s\<lparr>timeout_sources := filter (\<lambda>src. fst src \<noteq> h) (timeout_sources s)\<rparr>)))
      | Eos \<Rightarrow> on_eos s
      | PipelineError \<Rightarrow> on_error s
      | ManualTrigger name now \<Rightarrow> snd (play_manual_action_once name now s)
      | ReloadSchedule file_lines \<Rightarrow>
          seed_today_offsets True (s\<lparr>schedule := load_schedule file_lines\<rparr>)
      | Seed \<Rightarrow> seed_today_offsets False s
      | FsChange fs \<Rightarrow> s\<lparr>fs_exists := fs\<rparr>)"

fun run :: "input list \<Rightarrow> player \<Rightarrow> player" where
  "run [] s = s"
| "run (i # is) s = run is (handle i s)"

section \<open>Notions used in the statements\<close>

text \<open>How often the entry \<open>i\<close> has fired so far.\<close>

definition fired_count :: "nat \<Rightarrow> player \<Rightarrow> nat" where
  "fired_count i s = count_list (trace s) (Fired i)"

text \<open>The files handed to the media pipeline so far.\<close>

definition played :: "event list \<Rightarrow> string list" where
  "played evs = concat (map (\<lambda>ev. case ev of PlayFile p \<Rightarrow> [p] | _ \<Rightarrow> []) evs)"

text \<open>
  \<open>no_reset k\<close> holds for an input that leaves the daily state of the date \<open>k\<close>
  in place: any input but a reload of the schedule and a tick on another date.
  \<open>same_day k\<close> excludes a seeding call as well.
\<close>

definition no_reset :: "int \<Rightarrow> input \<Rightarrow> bool" where
  "no_reset k i =
     (case i of Tick now \<Rightarrow> ordinal now = k | ReloadSchedule file_lines \<Rightarrow> False | _ \<Rightarrow> True)"

definition same_day :: "int \<Rightarrow> input \<Rightarrow> bool" where
  "same_day k i = (no_reset k i \<and> i \<noteq> Seed)"


text \<open>Every pending source has an id below the next one to be given out.\<close>

definition ids_fresh :: "player \<Rightarrow> bool" where
  "ids_fresh s =
     (list_all (\<lambda>src. fst src < next_source_id s) (idle_sources s) \<and>
      list_all (\<lambda>src. fst src < next_source_id s) (timeout_sources s))"

text \<open>Every queued path is a file that exists.\<close>

definition queue_exists :: "player \<Rightarrow> bool" where
  "queue_exists s = list_all (\<lambda>p. \<not> path_missing s p) (play_queue s)"

text \<open>
  Two relations between the state before and after a piece of the program,
  for the proofs. \<open>steady\<close>: the schedule, the script, the daily state, the
  debounce table and the file system are as before, no entry has fired, and
  every file handed to the pipeline exists. \<open>day_kept\<close> allows entries to
  fire: the date and the offsets of the day are as before, a fired flag that
  is true stays true, and the number of times an entry has fired, plus one
  while its flag is not yet true, never grows.
\<close>

definition fire_budget :: "nat \<Rightarrow> player \<Rightarrow> nat" where
  "fire_budget i s = fired_count i s + (if today_fired s i = Some True then 0 else 1)"

definition steady :: "player \<Rightarrow> player \<Rightarrow> bool" where
  "steady s s' =
     (schedule s' = schedule s \<and> actions_script s' = actions_script s \<and>
      today_key s' = today_key s \<and> today_offsets s' = today_offsets s \<and>
      today_fired s' = today_fired s \<and>
      manual_action_last_trigger s' = manual_action_last_trigger s \<and>
      fs_exists s' = fs_exists s \<and> last_seen_hour s' = last_seen_hour s \<and>
      (\<exists>t. trace s' = trace s @ t \<and> (\<forall>i. Fired i \<notin> set t) \<and>
           list_all (\<lambda>f. \<not> path_missing s f) (played t)) \<and>
      (queue_exists s \<longrightarrow> queue_exists s') \<and>
      (ids_fresh s \<longrightarrow> ids_fresh s') \<and> next_source_id s \<le> next_source_id s')"

definition day_kept :: "player \<Rightarrow> player \<Rightarrow> bool" where
  "day_kept s s' =
     (today_key s' = today_key s \<and> today_offsets s' = today_offsets s \<and>
      (\<forall>i. today_fired s i = Some True \<longrightarrow> today_fired s' i = Some True) \<and>
      (\<forall>i. fired_count i s \<le> fired_count i s') \<and>
      (\<forall>i. fire_budget i s' \<le> fire_budget i s))"

subsection \<open>A small installation for the examples\<close>

text \<open>
  One entry for every day of the week at 09:00 with no random delay, a toast
  and the action \<open>GREET\<close>, which plays a file, waits and plays another; two
  files on disk; nothing playing. \<open>example_player\<close> is the player after the
  seeding of start-up. \<open>at_time\<close> is a reading of the clock on the day 739000.
\<close>

definition example_entry :: ScheduleEntry where
  "example_entry =
     \<lparr> monday = 1, tuesday = 1, wednesday = 1, thursday = 1, friday = 1, saturday = 1,
       sunday = 1, hour = 9, minute = 0, random_minutes = 0, duration = 60,
       toast_text = ''hello'', action = ''GREET'', data = ''FF'',
       hour_expr = ''9'', minute_expr = ''0'' \<rparr>"

definition example_steps :: "step list" where
  "example_steps = [Single ''PLAY'' ''a.mp4'', Single ''WAIT'' ''2'', Single ''PLAY'' ''b.mp4'']"

definition blank_player :: player where
  "blank_player =
     \<lparr> schedule = [example_entry],
       actions_script = [''GREET'' \<mapsto> example_steps],
       today_key = 739000,
       today_offsets = Map.empty,
       today_fired = Map.empty,
       play_queue = [],
       playing = False,
       last_seen_hour = 9,
       last_played_hour = Some 9,
       action_running = False,
       current_action_name = None,
       manual_action_last_trigger = Map.empty,
       step_timer_source = None,
       fs_exists = (\<lambda>p. p = ''a.mp4'' \<or> p = ''b.mp4''),
       rng_draws = (\<lambda>n. 7),
       rng_pos = 0,
       idle_sources = [],
       timeout_sources = [],
       next_source_id = 1,
       trace = [] \<rparr>"

definition example_player :: player where
  "example_player = seed_today_offsets False blank_player"

definition at_time :: "int \<Rightarrow> int \<Rightarrow> int \<Rightarrow> int \<Rightarrow> datetime" where
  "at_time h m sec us =
     \<lparr> ordinal = 739000, dt_hour = h, dt_minute = m, dt_second = sec, microsecond = us \<rparr>"

text \<open>The player of the examples while the action \<open>GREET\<close> is running.\<close>

definition running_player :: player where
  "running_player = example_player\<lparr>action_running := True, current_action_name := Some ''GREET''\<rparr>"


text \<open>
  A player that is not seeded yet, with the random bound 5 on its entry and the
  numbers 2, 3, \<open>\<dots>\<close> to be drawn; the schedule file of this player and that of
  the player of the examples.
\<close>

definition jitter_player :: player where
  "jitter_player =
     blank_player\<lparr>schedule := [example_entry\<lparr>random_minutes := 5\<rparr>],
                  rng_draws := (\<lambda>n. n + 2)\<rparr>"

definition jitter_lines :: "string list list" where
  "jitter_lines =
     [[], [''1'', ''1'', ''1'', ''1'', ''1'', ''1'', ''1'', ''9'', ''0'', ''5'', ''60'',
           ''hello'', ''GREET'', ''FF'']]"

definition example_lines :: "string list list" where
  "example_lines =
     [[], [''1'', ''1'', ''1'', ''1'', ''1'', ''1'', ''1'', ''9'', ''0'', ''0'', ''60'',
           ''hello'', ''GREET'', ''FF'']]"

text \<open>A schedule file with the hour and minute columns exchanged, and two rows.\<close>

definition example_header :: "string list" where
  "example_header = [''Mo'', ''Tu'', ''We'', ''Th'', ''Fr'', ''Sa'', ''Su'', ''mm'', '' hh '',
     ''Random'', ''Duration'', ''Text'', ''Action'', ''Data'']"

definition example_row :: "string list" where
  "example_row = [''1'', ''1'', ''1'', ''1'', ''1'', ''0'', '''', ''*/30'', ''*/12'',
     ''5'', ''60'', '' hello '', ''ACT_X'', ''FF'']"

definition example_bad_row :: "string list" where
  "example_bad_row = [''1'', ''1'', ''1'', ''1'', ''1'', ''0'', ''0'', ''*/30'', ''*/12'',
     ''x'', ''60'', ''hello'', ''ACT_X'', ''FF'']"

section \<open>Properties of the calendar expression parser\<close>

lemma strip_ends:
  assumes "strip s \<noteq> []"
  shows "\<not> is_space (hd (strip s)) \<and> \<not> is_space (last (strip s))"
proof -
  define t where "t = dropWhile is_space s"
  define u where "u = dropWhile is_space (rev t)"
  have su: "strip s = rev u" by (simp add: strip_def t_def u_def)
  with assms have une: "u \<noteq> []" by simp
  then have hu: "\<not> is_space (hd u)" unfolding u_def by (rule hd_dropWhile)
  have "rev t = takeWhile is_space (rev t) @ u" by (simp add: u_def)
  then have "rev (rev t) = rev (takeWhile is_space (rev t) @ u)" by simp
  then have tdec: "t = rev u @ rev (takeWhile is_space (rev t))" by simp
  with une have tne: "t \<noteq> []" by auto
  then have "\<not> is_space (hd t)" unfolding t_def by (rule hd_dropWhile)
  moreover have "hd t = hd (rev u)" using tdec une by (metis hd_append2 rev_is_Nil_conv)
  ultimately have "\<not> is_space (hd (rev u))" by simp
  moreover have "last (rev u) = hd u" using une by (simp add: last_rev)
  ultimately show ?thesis using hu su by simp
qed

lemma dropWhile_hd_id: "xs \<noteq> [] \<Longrightarrow> \<not> P (hd xs) \<Longrightarrow> dropWhile P xs = xs"
  by (cases xs) auto

lemma strip_fixed:
  assumes "x \<noteq> []" "\<not> is_space (hd x)" "\<not> is_space (last x)"
  shows "strip x = x"
proof -
  have a: "dropWhile is_space x = x" using assms by (simp add: dropWhile_hd_id)
  have "hd (rev x) = last x" using assms by (simp add: hd_rev)
  moreover have "rev x \<noteq> []" using assms by simp
  ultimately have b: "dropWhile is_space (rev x) = rev x"
    using assms by (intro dropWhile_hd_id) simp_all
  show ?thesis by (simp add: strip_def a b)
qed

lemma strip_idem: "strip (strip s) = strip s"
proof (cases "strip s = []")
  case True
  then show ?thesis by (simp add: strip_def [of "[]"])
next
  case False
  then show ?thesis using strip_ends strip_fixed by blast
qed

lemma map_int_upt: "map int [0..<nat n] = [0..n - 1]"
proof (rule nth_equalityI)
  show "length (map int [0..<nat n]) = length [0..n - 1]" by simp
next
  fix i assume "i < length (map int [0..<nat n])"
  then show "map int [0..<nat n] ! i = [0..n - 1] ! i" by (simp add: nth_upto)
qed

lemma py_range_one: "py_range 0 (mx + 1) 1 = [0..mx]"
  using map_int_upt [of "mx + 1"] by (auto simp: py_range_def add.commute)

lemma set_py_range:
  assumes "0 < n"
  shows "set (py_range 0 (mx + 1) n) = {k. 0 \<le> k \<and> k \<le> mx \<and> n dvd k}"
proof (cases "0 < mx + 1")
  case False
  then show ?thesis by (auto simp: py_range_def)
next
  case True
  have len: "(mx + 1 - 0 + n - 1) div n = mx div n + 1"
  proof -
    have "(mx + 1 - 0 + n - 1) div n = (mx + n * 1) div n" by (simp add: algebra_simps)
    also have "\<dots> = mx div n + 1" using assms by (subst div_mult_self2) simp_all
    finally show ?thesis .
  qed
  show ?thesis
  proof (rule set_eqI)
    fix k
    show "k \<in> set (py_range 0 (mx + 1) n) \<longleftrightarrow> k \<in> {k. 0 \<le> k \<and> k \<le> mx \<and> n dvd k}"
    proof
      assume "k \<in> set (py_range 0 (mx + 1) n)"
      then have "k \<in> (\<lambda>i. int i * n) ` {0..<nat (mx div n + 1)}"
        using True len by (simp add: py_range_def)
      then obtain i where i0: "k = int i * n" "i \<in> {0..<nat (mx div n + 1)}"
        by blast
      then have i: "k = int i * n" "int i < mx div n + 1"
        by simp_all
      then have "int i * n \<le> mx div n * n" using assms by simp
      also have "\<dots> \<le> mx"
      proof -
        have "mx div n * n + mx mod n = mx" by simp
        moreover have "0 \<le> mx mod n" using assms by simp
        ultimately show ?thesis by linarith
      qed
      finally show "k \<in> {k. 0 \<le> k \<and> k \<le> mx \<and> n dvd k}" using i assms by simp
    next
      assume "k \<in> {k. 0 \<le> k \<and> k \<le> mx \<and> n dvd k}"
      then obtain q where q: "k = n * q" "0 \<le> k" "k \<le> mx" by (auto simp: dvd_def)
      then have q0: "0 \<le> q" using assms by (simp add: zero_le_mult_iff)
      have "q = k div n" using q assms by simp
      also have "\<dots> \<le> mx div n" using q(3) assms by (rule zdiv_mono1)
      finally have "nat q < nat (mx div n + 1)" using q0 by simp
      moreover have "k = int (nat q) * n" using q q0 by simp
      ultimately have "k \<in> (\<lambda>i. int i * n) ` {0..<nat (mx div n + 1)}"
        by (intro image_eqI [where x = "nat q"]) simp_all
      then show "k \<in> set (py_range 0 (mx + 1) n)"
        using True len by (simp add: py_range_def)
    qed
  qed
qed

lemma int_strip_hd:
  assumes "\<not> is_int_space c"
  shows "rev (dropWhile is_int_space (rev (dropWhile is_int_space (c # cs))))
           = c # rev (dropWhile is_int_space (rev cs))"
proof -
  have "dropWhile is_int_space (rev cs @ c # []) = dropWhile is_int_space (rev cs) @ c # []"
    using assms by (rule dropWhile_append3)
  then show ?thesis using assms by simp
qed

lemma digits_ok_hd: "digits_ok s \<Longrightarrow> s \<noteq> [] \<and> is_digit (hd s)"
  by (induction s rule: digits_ok.induct) auto

lemma py_int_Some_shape:
  assumes "py_int s = Some v"
  shows "s \<noteq> [] \<and> s \<noteq> ''*'' \<and> take 2 s \<noteq> ''*/''"
proof (cases s)
  case Nil
  with assms show ?thesis by (simp add: py_int_def)
next
  case (Cons c r)
  have "c \<noteq> CHR ''*''"
  proof
    assume star: "c = CHR ''*''"
    then have "\<not> is_int_space c" by (simp add: is_int_space_def)
    from int_strip_hd [OF this, of r] assms Cons star
    have "digits_ok (c # rev (dropWhile is_int_space (rev r)))"
      by (simp add: py_int_def Let_def split: if_splits)
    then have "is_digit c" using digits_ok_hd by fastforce
    with star show False by (simp add: is_digit_def)
  qed
  with Cons show ?thesis by (cases r) auto
qed

text \<open>
  Claim C4. What \<open>parse_time_field\<close> returns, form by form, on a field of
  code points below 256 with the white space at its ends removed: a blank field gives \<open>[0]\<close>; \<open>*\<close> gives
  \<open>0, 1, \<dots>, mx\<close>; \<open>*/N\<close> with an integer \<open>N > 0\<close> gives exactly the multiples
  of \<open>N\<close> between \<open>0\<close> and \<open>mx\<close>, each once, and is an error when \<open>N \<le> 0\<close> or
  when \<open>N\<close> is no integer; an integer literal \<open>v\<close> gives \<open>[v]\<close> when
  \<open>0 \<le> v \<le> mx\<close> and the out-of-range error otherwise; every other field is
  the invalid-value error. "Integer literal" is what \<^verbatim>\<open>int()\<close> accepts, here
  \<open>py_int\<close>; the text after \<open>*/\<close> is given to \<^verbatim>\<open>int()\<close> as it stands.
\<close>

theorem parse_time_field_cases:
  "(strip e = [] \<longrightarrow> parse_time_field e mx = Inr [0]) \<and>
   (strip e = ''*'' \<longrightarrow> parse_time_field e mx = Inr [0..mx]) \<and>
   (\<forall>t n. strip e = ''*/'' @ t \<and> py_int t = Some n \<and> 0 < n \<longrightarrow>
      (\<exists>r. parse_time_field e mx = Inr r \<and> distinct r \<and>
           set r = {k. 0 \<le> k \<and> k \<le> mx \<and> n dvd k})) \<and>
   (\<forall>t n. strip e = ''*/'' @ t \<and> py_int t = Some n \<and> n \<le> 0 \<longrightarrow>
      parse_time_field e mx = Inl InvalidStep) \<and>
   (\<forall>t. strip e = ''*/'' @ t \<and> py_int t = None \<longrightarrow>
      parse_time_field e mx = Inl InvalidStepExpression) \<and>
   (\<forall>v. py_int (strip e) = Some v \<and> 0 \<le> v \<and> v \<le> mx \<longrightarrow>
      parse_time_field e mx = Inr [v]) \<and>
   (\<forall>v. py_int (strip e) = Some v \<and> \<not> (0 \<le> v \<and> v \<le> mx) \<longrightarrow>
      parse_time_field e mx = Inl OutOfRange) \<and>
   (strip e \<noteq> [] \<and> strip e \<noteq> ''*'' \<and> take 2 (strip e) \<noteq> ''*/'' \<and>
    py_int (strip e) = None \<longrightarrow>
      parse_time_field e mx = Inl InvalidValue)"
proof (intro conjI allI impI)
  assume "strip e = []"
  then show "parse_time_field e mx = Inr [0]" by (simp add: parse_time_field_def)
next
  assume "strip e = ''*''"
  then show "parse_time_field e mx = Inr [0..mx]"
    by (simp add: parse_time_field_def py_range_one)
next
  fix t n assume h: "strip e = ''*/'' @ t \<and> py_int t = Some n \<and> 0 < n"
  then have "parse_time_field e mx = Inr (py_range 0 (mx + 1) n)"
    by (simp add: parse_time_field_def)
  moreover have "distinct (py_range 0 (mx + 1) n)"
    using h by (simp add: py_range_def distinct_map inj_on_def)
  ultimately show "\<exists>r. parse_time_field e mx = Inr r \<and> distinct r \<and>
      set r = {k. 0 \<le> k \<and> k \<le> mx \<and> n dvd k}"
    using h set_py_range [of n mx] by simp
next
  fix t n assume "strip e = ''*/'' @ t \<and> py_int t = Some n \<and> n \<le> 0"
  then show "parse_time_field e mx = Inl InvalidStep" by (simp add: parse_time_field_def)
next
  fix t assume "strip e = ''*/'' @ t \<and> py_int t = None"
  then show "parse_time_field e mx = Inl InvalidStepExpression"
    by (simp add: parse_time_field_def)
next
  fix v assume h: "py_int (strip e) = Some v \<and> 0 \<le> v \<and> v \<le> mx"
  then show "parse_time_field e mx = Inr [v]"
    using py_int_Some_shape [of "strip e" v]
    by (simp add: parse_time_field_def Let_def)
next
  fix v assume h: "py_int (strip e) = Some v \<and> \<not> (0 \<le> v \<and> v \<le> mx)"
  then show "parse_time_field e mx = Inl OutOfRange"
    using py_int_Some_shape [of "strip e" v]
    by (simp add: parse_time_field_def Let_def)
next
  assume "strip e \<noteq> [] \<and> strip e \<noteq> ''*'' \<and> take 2 (strip e) \<noteq> ''*/'' \<and>
    py_int (strip e) = None"
  then show "parse_time_field e mx = Inl InvalidValue"
    by (simp add: parse_time_field_def Let_def)
qed

text \<open>
  The scenarios of the specification, and two fields with the separator 31:
  at the end of a field it is stripped with the white space, after \<open>*/\<close> it
  makes the step an invalid literal.
\<close>

theorem parse_time_field_cases_witness:
  "parse_time_field ''  '' 23 = Inr [0] \<and>
   parse_time_field '' * '' 23 = Inr [0..23] \<and>
   (\<exists>r. parse_time_field ''*/15'' 59 = Inr r \<and> distinct r \<and>
        set r = {k. 0 \<le> k \<and> k \<le> 59 \<and> 15 dvd k}) \<and>
   parse_time_field ''*/0'' 59 = Inl InvalidStep \<and>
   parse_time_field ''*/x'' 59 = Inl InvalidStepExpression \<and>
   parse_time_field (''*/'' @ [CHR 0x1F] @ ''5'') 59 = Inl InvalidStepExpression \<and>
   parse_time_field ''7'' 23 = Inr [7] \<and>
   parse_time_field (''7'' @ [CHR 0x1F]) 23 = Inr [7] \<and>
   parse_time_field ''99'' 23 = Inl OutOfRange \<and>
   parse_time_field ''7h'' 23 = Inl InvalidValue"
proof -
  note ev = strip_def is_space_def py_int_def is_int_space_def max_str_digits_def
    is_digit_def digits_value_def digit_val_def
  have "strip ''  '' = []" by (simp add: ev)
  then have c1: "parse_time_field ''  '' 23 = Inr [0]"
    using parse_time_field_cases [of "''  ''" 23] by blast
  have "strip '' * '' = ''*''" by (simp add: ev)
  then have c2: "parse_time_field '' * '' 23 = Inr [0..23]"
    using parse_time_field_cases [of "'' * ''" 23] by blast
  have "strip ''*/15'' = ''*/'' @ ''15'' \<and> py_int ''15'' = Some 15 \<and> (0::int) < 15"
    by (simp add: ev)
  then have c3: "\<exists>r. parse_time_field ''*/15'' 59 = Inr r \<and> distinct r \<and>
        set r = {k. 0 \<le> k \<and> k \<le> 59 \<and> 15 dvd k}"
    using parse_time_field_cases [of "''*/15''" 59] by blast
  have "strip ''*/0'' = ''*/'' @ ''0'' \<and> py_int ''0'' = Some 0 \<and> (0::int) \<le> 0"
    by (simp add: ev)
  then have c4: "parse_time_field ''*/0'' 59 = Inl InvalidStep"
    using parse_time_field_cases [of "''*/0''" 59] by blast
  have "strip ''*/x'' = ''*/'' @ ''x'' \<and> py_int ''x'' = None"
    by (simp add: ev)
  then have c5: "parse_time_field ''*/x'' 59 = Inl InvalidStepExpression"
    using parse_time_field_cases [of "''*/x''" 59] by blast
  have "strip (''*/'' @ [CHR 0x1F] @ ''5'') = ''*/'' @ ([CHR 0x1F] @ ''5'') \<and>
        py_int ([CHR 0x1F] @ ''5'') = None"
    by (simp add: ev)
  then have c5b: "parse_time_field (''*/'' @ [CHR 0x1F] @ ''5'') 59
        = Inl InvalidStepExpression"
    using parse_time_field_cases [of "''*/'' @ [CHR 0x1F] @ ''5''" 59] by blast
  have "py_int (strip ''7'') = Some 7 \<and> (0::int) \<le> 7 \<and> (7::int) \<le> 23" by (simp add: ev)
  then have c6: "parse_time_field ''7'' 23 = Inr [7]"
    using parse_time_field_cases [of "''7''" 23] by blast
  have "py_int (strip (''7'' @ [CHR 0x1F])) = Some 7 \<and> (0::int) \<le> 7 \<and> (7::int) \<le> 23"
    by (simp add: ev)
  then have c6b: "parse_time_field (''7'' @ [CHR 0x1F]) 23 = Inr [7]"
    using parse_time_field_cases [of "''7'' @ [CHR 0x1F]" 23] by blast
  have "py_int (strip ''99'') = Some 99 \<and> \<not> ((0::int) \<le> 99 \<and> (99::int) \<le> 23)"
    by (simp add: ev)
  then have c7: "parse_time_field ''99'' 23 = Inl OutOfRange"
    using parse_time_field_cases [of "''99''" 23] by blast
  have "strip ''7h'' \<noteq> [] \<and> strip ''7h'' \<noteq> ''*'' \<and> take 2 (strip ''7h'') \<noteq> ''*/'' \<and>
        py_int (strip ''7h'') = None" by (simp add: ev)
  then have c8: "parse_time_field ''7h'' 23 = Inl InvalidValue"
    using parse_time_field_cases [of "''7h''" 23] by blast
  from c1 c2 c3 c4 c5 c5b c6 c6b c7 c8 show ?thesis by blast
qed

section \<open>Properties of the schedule loader\<close>

lemma distinct_py_range: "0 < n \<Longrightarrow> distinct (py_range a b n)"
  by (simp add: py_range_def distinct_map inj_on_def)

lemma parse_time_field_range:
  assumes "0 \<le> mx" and "parse_time_field f mx = Inr r"
  shows "distinct r \<and> set r \<subseteq> {0..mx}"
proof -
  have "r = [0] \<or> r = [0..mx] \<or> (\<exists>n. 0 < n \<and> r = py_range 0 (mx + 1) n) \<or>
        (\<exists>v. 0 \<le> v \<and> v \<le> mx \<and> r = [v])"
    using assms(2)
    by (auto simp: parse_time_field_def Let_def py_range_one not_le
        split: if_splits option.splits)
  then consider (blank) "r = [0]" | (star) "r = [0..mx]"
    | (step) n where "0 < n" "r = py_range 0 (mx + 1) n"
    | (lit) v where "0 \<le> v" "v \<le> mx" "r = [v]"
    by blast
  then show ?thesis
  proof cases
    case blank
    then show ?thesis using assms(1) by simp
  next
    case star
    then show ?thesis by simp
  next
    case (step n)
    then show ?thesis using set_py_range [of n mx] distinct_py_range [of n 0 "mx + 1"] by auto
  next
    case (lit v)
    then show ?thesis by simp
  qed
qed

lemma expand_entries_length:
  "length (expand_entries flags rnd dur txt act dat hr mr H M) = length H * length M"
  by (induction H) (simp_all add: expand_entries_def)

lemma expand_entries_times:
  "map (\<lambda>e. (hour e, minute e)) (expand_entries flags rnd dur txt act dat hr mr H M)
     = List.product H M"
  by (induction H) (simp_all add: expand_entries_def comp_def)

lemma expand_entries_shared:
  assumes "e \<in> set (expand_entries flags rnd dur txt act dat hr mr H M)"
  shows "monday e = flags ! 0 \<and> tuesday e = flags ! 1 \<and> wednesday e = flags ! 2 \<and>
         thursday e = flags ! 3 \<and> friday e = flags ! 4 \<and> saturday e = flags ! 5 \<and>
         sunday e = flags ! 6 \<and> random_minutes e = rnd \<and> duration e = dur \<and>
         toast_text e = txt \<and> action e = act \<and> data e = dat \<and>
         hour_expr e = strip hr \<and> minute_expr e = strip mr"
  using assms by (auto simp: expand_entries_def)

lemma load_rows_append:
  "load_rows hh mm (xs @ ys) = load_rows hh mm xs @ load_rows hh mm ys"
  by (simp add: load_rows_def)

lemma load_rows_Cons:
  "load_rows hh mm (x # ys) = load_rows hh mm [x] @ load_rows hh mm ys"
  by (simp add: load_rows_def)

lemma those_length: "those xs = Some ys \<Longrightarrow> length ys = length xs"
  by (induction xs arbitrary: ys) (auto split: option.splits)


lemma header_index_last:
  fixes name :: string and header :: "string list"
  defines "is_col \<equiv> (\<lambda>j. j < length header \<and> upper (strip (header ! j)) = name)"
  shows "if (\<exists>j. is_col j)
         then is_col (header_index name dflt header) \<and>
              (\<forall>j. is_col j \<longrightarrow> j \<le> header_index name dflt header)
         else header_index name dflt header = dflt"
  unfolding is_col_def
proof (induction header rule: rev_induct)
  case Nil
  show ?case by (simp add: header_index_def)
next
  case (snoc x xs)
  have step: "header_index name dflt (xs @ [x])
      = (if upper (strip x) = name then length xs else header_index name dflt xs)"
    by (simp add: header_index_def enumerate_append_eq)
  show ?case
  proof (cases "upper (strip x) = name")
    case True
    then show ?thesis unfolding step by (auto simp: nth_append)
  next
    case False
    have ex: "(\<exists>j. j < length (xs @ [x]) \<and> upper (strip ((xs @ [x]) ! j)) = name)
        \<longleftrightarrow> (\<exists>j. j < length xs \<and> upper (strip (xs ! j)) = name)"
      using False by (auto simp: nth_append less_Suc_eq)
    show ?thesis
    proof (cases "\<exists>j. j < length xs \<and> upper (strip (xs ! j)) = name")
      case True
      with snoc have ih: "header_index name dflt xs < length xs"
        "upper (strip (xs ! header_index name dflt xs)) = name"
        "\<forall>j. j < length xs \<and> upper (strip (xs ! j)) = name \<longrightarrow> j \<le> header_index name dflt xs"
        by auto
      have "\<forall>j. j < length (xs @ [x]) \<and> upper (strip ((xs @ [x]) ! j)) = name
              \<longrightarrow> j \<le> header_index name dflt xs"
        using ih(3) False by (auto simp: nth_append less_Suc_eq)
      then show ?thesis using ex True ih False unfolding step by (simp add: nth_append)
    next
      case nex: False
      with snoc have d: "header_index name dflt xs = dflt" by simp
      have nc: "\<not> (\<exists>j. j < length (xs @ [x]) \<and> upper (strip ((xs @ [x]) ! j)) = name)"
        using ex nex by blast
      have "header_index name dflt (xs @ [x]) = dflt" using d False by (simp add: step)
      then show ?thesis using nc by (simp only: if_False)
    qed
  qed
qed

lemma load_rows_skip:
  assumes "blank_row row \<or> (\<exists>e. parse_row hh mm row = Inl e)"
  shows "load_rows hh mm (pre @ row # post) = load_rows hh mm (pre @ post)"
  using assms by (auto simp: load_rows_def)

lemmas cell_defs = strip_def is_space_def py_int_def is_int_space_def max_str_digits_def
  is_digit_def digits_value_def digit_val_def int_cell_def

text \<open>
  Claim C3, as stated, fails for a row with a cell that is no integer, and for
  a blank row. Under a header without the titles \<open>HH\<close> and \<open>MM\<close>, the hour
  field \<open>*/12\<close> and the minute field \<open>*/30\<close> of the first row below parse to
  two hours and two minutes, but the cell \<open>x\<close> in the column of the random
  bound makes \<^verbatim>\<open>int()\<close> fail: the row is passed over and no entry is loaded,
  where the claim has four. The empty hour and minute fields of a blank row
  parse to \<open>[0]\<close>; the row gives no entry, where the claim has one.
\<close>

theorem row_with_bad_cell_loads_nothing:
  "parse_time_field ''*/12'' 23 = Inr [0, 12] \<and>
   parse_time_field ''*/30'' 59 = Inr [0, 30] \<and>
   load_schedule [[],
     [''1'', ''1'', ''1'', ''1'', ''1'', ''0'', ''0'', ''*/12'', ''*/30'',
      ''x'', ''60'', ''hello'', ''ACT_X'', ''FF'']] = [] \<and>
   parse_time_field [] 23 = Inr [0] \<and>
   parse_time_field [] 59 = Inr [0] \<and>
   load_schedule [[], [[], '' '', []]] = []"
proof -
  have a: "parse_time_field ''*/12'' 23 = Inr [0, 12]"
    by (simp add: cell_defs parse_time_field_def py_range_def upt_rec)
  have b: "parse_time_field ''*/30'' 59 = Inr [0, 30]"
    by (simp add: cell_defs parse_time_field_def py_range_def upt_rec)
  have x: "int_cell ''x'' = None" by (simp add: cell_defs)
  have one: "int_cell ''1'' = Some 1" by (simp add: cell_defs)
  have zero: "int_cell ''0'' = Some 0" by (simp add: cell_defs)
  have nb: "\<not> blank_row [''1'', ''1'', ''1'', ''1'', ''1'', ''0'', ''0'', ''*/12'', ''*/30'',
      ''x'', ''60'', ''hello'', ''ACT_X'', ''FF'']"
    by (simp add: blank_row_def strip_def is_space_def)
  have c: "load_schedule [[],
     [''1'', ''1'', ''1'', ''1'', ''1'', ''0'', ''0'', ''*/12'', ''*/30'',
      ''x'', ''60'', ''hello'', ''ACT_X'', ''FF'']] = []"
    using nb by (simp add: header_index_def load_rows_def parse_row_def pad_row_def x one zero)
  have d: "parse_time_field [] 23 = Inr [0]" "parse_time_field [] 59 = Inr [0]"
    by (simp_all add: parse_time_field_def strip_def)
  have e: "load_schedule [[], [[], '' '', []]] = []"
    by (simp add: header_index_def load_rows_def blank_row_def strip_def is_space_def)
  from a b c d e show ?thesis by simp
qed

text \<open>
  Claim C3, amended. The columns of the hour and of the minute are the last
  columns of the header titled \<open>HH\<close> and \<open>MM\<close> (white space and case apart), the
  columns 7 and 8 without such a title. A row that is not blank, whose seven
  weekday cells and whose random and duration cells are integers (an empty
  cell counts as 0), and whose hour and minute cells expand to the lists \<open>H\<close>
  and \<open>M\<close>, contributes to the loaded schedule exactly \<open>length H * length M\<close>
  entries, at its place among the rows: one entry for each pair of the
  cartesian product of \<open>H\<close> and \<open>M\<close>, in order, the pairs being distinct and
  within \<open>0..23\<close> and \<open>0..59\<close>. Every one of these entries has the weekday
  flags, the random bound, the duration, the toast text, the action, the data
  and the two expressions of the row. Every other row (blank, or with a cell or
  an expression that does not parse) contributes nothing.
\<close>

theorem load_schedule_row_expansion:
  fixes header row :: "string list"
  defines "hh \<equiv> header_index ''HH'' 7 header"
    and "mm \<equiv> header_index ''MM'' 8 header"
  defines "prow \<equiv> pad_row (max 14 (max (hh + 1) (mm + 1))) row"
  shows
  "(\<forall>flags rnd dur H M.
      \<not> blank_row row \<and>
      those (map int_cell (take 7 prow)) = Some flags \<and>
      int_cell (prow ! 9) = Some rnd \<and> int_cell (prow ! 10) = Some dur \<and>
      parse_time_field (prow ! hh) 23 = Inr H \<and>
      parse_time_field (prow ! mm) 59 = Inr M \<longrightarrow>
      (\<exists>es. load_schedule (header # pre @ row # post)
               = load_schedule (header # pre) @ es @ load_schedule (header # post) \<and>
          length es = length H * length M \<and>
          map (\<lambda>e. (hour e, minute e)) es = List.product H M \<and>
          distinct (List.product H M) \<and>
          set (List.product H M) \<subseteq> {0..23} \<times> {0..59} \<and>
          list_all (\<lambda>e. [monday e, tuesday e, wednesday e, thursday e, friday e,
                         saturday e, sunday e] = flags \<and>
                        random_minutes e = rnd \<and> duration e = dur \<and>
                        toast_text e = strip (prow ! 11) \<and> action e = strip (prow ! 12) \<and>
                        data e = strip (prow ! 13) \<and>
                        hour_expr e = strip (prow ! hh) \<and>
                        minute_expr e = strip (prow ! mm)) es)) \<and>
   (blank_row row \<or>
    those (map int_cell (take 7 prow)) = None \<or>
    int_cell (prow ! 9) = None \<or> int_cell (prow ! 10) = None \<or>
    (\<exists>e. parse_time_field (prow ! hh) 23 = Inl e) \<or>
    (\<exists>e. parse_time_field (prow ! mm) 59 = Inl e) \<longrightarrow>
      load_schedule (header # pre @ row # post) = load_schedule (header # pre @ post)) \<and>
   (if \<exists>j < length header. upper (strip (header ! j)) = ''HH''
    then hh < length header \<and> upper (strip (header ! hh)) = ''HH'' \<and>
         (\<forall>j < length header. hh < j \<longrightarrow> upper (strip (header ! j)) \<noteq> ''HH'')
    else hh = 7) \<and>
   (if \<exists>j < length header. upper (strip (header ! j)) = ''MM''
    then mm < length header \<and> upper (strip (header ! mm)) = ''MM'' \<and>
         (\<forall>j < length header. mm < j \<longrightarrow> upper (strip (header ! j)) \<noteq> ''MM'')
    else mm = 8)"
proof (intro conjI allI impI)
  fix flags rnd dur H M
  assume a: "\<not> blank_row row \<and>
      those (map int_cell (take 7 prow)) = Some flags \<and>
      int_cell (prow ! 9) = Some rnd \<and> int_cell (prow ! 10) = Some dur \<and>
      parse_time_field (prow ! hh) 23 = Inr H \<and>
      parse_time_field (prow ! mm) 59 = Inr M"
  then have nb: "\<not> blank_row row"
    and fl: "those (map int_cell (take 7 prow)) = Some flags"
    and rn: "int_cell (prow ! 9) = Some rnd" and du: "int_cell (prow ! 10) = Some dur"
    and hs: "parse_time_field (prow ! hh) 23 = Inr H"
    and ms: "parse_time_field (prow ! mm) 59 = Inr M" by simp_all
  define es where "es = expand_entries flags rnd dur (strip (prow ! 11)) (strip (prow ! 12))
      (strip (prow ! 13)) (prow ! hh) (prow ! mm) H M"
  have pr: "parse_row hh mm row = Inr es"
    using fl rn du hs ms by (simp add: parse_row_def Let_def prow_def es_def)
  have one: "load_rows hh mm [row] = es" using nb pr by (simp add: load_rows_def)
  have "load_rows hh mm (pre @ row # post)
          = load_rows hh mm pre @ load_rows hh mm [row] @ load_rows hh mm post"
    using load_rows_append [of hh mm pre "row # post"] load_rows_Cons [of hh mm row post]
    by simp
  then have c1: "load_schedule (header # pre @ row # post)
          = load_schedule (header # pre) @ es @ load_schedule (header # post)"
    using one by (simp add: hh_def mm_def)
  have c2: "length es = length H * length M" by (simp add: es_def expand_entries_length)
  have c3: "map (\<lambda>e. (hour e, minute e)) es = List.product H M"
    by (simp add: es_def expand_entries_times)
  have rH: "distinct H \<and> set H \<subseteq> {0..23}" using parse_time_field_range [OF _ hs] by simp
  have rM: "distinct M \<and> set M \<subseteq> {0..59}" using parse_time_field_range [OF _ ms] by simp
  have c4: "distinct (List.product H M)" using rH rM by (simp add: distinct_product)
  have c5: "set (List.product H M) \<subseteq> {0..23} \<times> {0..59}" using rH rM by auto
  have "length prow = max 14 (max (hh + 1) (mm + 1))" by (simp add: prow_def pad_row_def)
  then have "length (map int_cell (take 7 prow)) = 7" by simp
  then have l7: "length flags = 7" using those_length [OF fl] by simp
  have fl7: "[flags ! 0, flags ! 1, flags ! 2, flags ! 3, flags ! 4, flags ! 5, flags ! 6] = flags"
    using l7 by (intro nth_equalityI) (auto simp: nth_Cons' numeral_eq_Suc less_Suc_eq)
  have c6: "list_all (\<lambda>e. [monday e, tuesday e, wednesday e, thursday e, friday e,
                         saturday e, sunday e] = flags \<and>
                        random_minutes e = rnd \<and> duration e = dur \<and>
                        toast_text e = strip (prow ! 11) \<and> action e = strip (prow ! 12) \<and>
                        data e = strip (prow ! 13) \<and>
                        hour_expr e = strip (prow ! hh) \<and>
                        minute_expr e = strip (prow ! mm)) es"
    unfolding list_all_iff es_def
  proof
    fix e assume "e \<in> set (expand_entries flags rnd dur (strip (prow ! 11)) (strip (prow ! 12))
      (strip (prow ! 13)) (prow ! hh) (prow ! mm) H M)"
    from expand_entries_shared [OF this] fl7
    show "[monday e, tuesday e, wednesday e, thursday e, friday e,
                         saturday e, sunday e] = flags \<and>
                        random_minutes e = rnd \<and> duration e = dur \<and>
                        toast_text e = strip (prow ! 11) \<and> action e = strip (prow ! 12) \<and>
                        data e = strip (prow ! 13) \<and>
                        hour_expr e = strip (prow ! hh) \<and>
                        minute_expr e = strip (prow ! mm)" by simp
  qed
  from c1 c2 c3 c4 c5 c6
  show "\<exists>es. load_schedule (header # pre @ row # post)
               = load_schedule (header # pre) @ es @ load_schedule (header # post) \<and>
          length es = length H * length M \<and>
          map (\<lambda>e. (hour e, minute e)) es = List.product H M \<and>
          distinct (List.product H M) \<and>
          set (List.product H M) \<subseteq> {0..23} \<times> {0..59} \<and>
          list_all (\<lambda>e. [monday e, tuesday e, wednesday e, thursday e, friday e,
                         saturday e, sunday e] = flags \<and>
                        random_minutes e = rnd \<and> duration e = dur \<and>
                        toast_text e = strip (prow ! 11) \<and> action e = strip (prow ! 12) \<and>
                        data e = strip (prow ! 13) \<and>
                        hour_expr e = strip (prow ! hh) \<and>
                        minute_expr e = strip (prow ! mm)) es" by blast
next
  assume b: "blank_row row \<or>
    those (map int_cell (take 7 prow)) = None \<or>
    int_cell (prow ! 9) = None \<or> int_cell (prow ! 10) = None \<or>
    (\<exists>e. parse_time_field (prow ! hh) 23 = Inl e) \<or>
    (\<exists>e. parse_time_field (prow ! mm) 59 = Inl e)"
  have "blank_row row \<or> (\<exists>e. parse_row hh mm row = Inl e)"
  proof (cases "blank_row row")
    case True
    then show ?thesis by simp
  next
    case False
    with b have "\<exists>e. parse_row hh mm row = Inl e"
      unfolding parse_row_def Let_def prow_def [symmetric]
      by (auto split: option.splits sum.splits)
    then show ?thesis by simp
  qed
  from load_rows_skip [OF this]
  show "load_schedule (header # pre @ row # post) = load_schedule (header # pre @ post)"
    by (simp add: hh_def mm_def)
next
  from header_index_last [where name = "''HH''" and header = header and dflt = 7]
  show "if \<exists>j < length header. upper (strip (header ! j)) = ''HH''
    then hh < length header \<and> upper (strip (header ! hh)) = ''HH'' \<and>
         (\<forall>j < length header. hh < j \<longrightarrow> upper (strip (header ! j)) \<noteq> ''HH'')
    else hh = 7"
    unfolding hh_def by (auto split: if_splits)
next
  from header_index_last [where name = "''MM''" and header = header and dflt = 8]
  show "if \<exists>j < length header. upper (strip (header ! j)) = ''MM''
    then mm < length header \<and> upper (strip (header ! mm)) = ''MM'' \<and>
         (\<forall>j < length header. mm < j \<longrightarrow> upper (strip (header ! j)) \<noteq> ''MM'')
    else mm = 8"
    unfolding mm_def by (auto split: if_splits)
qed

theorem load_schedule_row_expansion_witness:
  "\<exists>es. load_schedule [example_header, example_row, example_bad_row] = es \<and>
        length es = 4 \<and>
        map (\<lambda>e. (hour e, minute e)) es = [(0, 0), (0, 30), (12, 0), (12, 30)] \<and>
        list_all (\<lambda>e. [monday e, tuesday e, wednesday e, thursday e, friday e,
                         saturday e, sunday e] = [1, 1, 1, 1, 1, 0, 0] \<and>
                        random_minutes e = 5 \<and> duration e = 60 \<and>
                        toast_text e = ''hello'' \<and> action e = ''ACT_X'' \<and>
                        data e = ''FF'' \<and> hour_expr e = ''*/12'' \<and> minute_expr e = ''*/30'') es"
proof -
  have hh: "header_index ''HH'' 7 example_header = 8" by code_simp
  have mm: "header_index ''MM'' 8 example_header = 7" by code_simp
  have pv: "pad_row (max 14 (max (8 + 1) (7 + 1))) example_row = example_row"
    "pad_row (max 14 (max (8 + 1) (7 + 1))) example_bad_row = example_bad_row"
    by (simp_all add: pad_row_def example_row_def example_bad_row_def)
  have nb: "\<not> blank_row example_row"
    unfolding example_row_def blank_row_def by (simp add: cell_defs)
  have fl: "those (map int_cell (take 7 example_row)) = Some [1, 1, 1, 1, 1, 0, 0]"
    unfolding example_row_def by (simp add: cell_defs)
  have rn: "int_cell (example_row ! 9) = Some 5" unfolding example_row_def by (simp add: cell_defs)
  have du: "int_cell (example_row ! 10) = Some 60" unfolding example_row_def by (simp add: cell_defs)
  have hs: "parse_time_field (example_row ! 8) 23 = Inr [0, 12]"
    unfolding example_row_def by (simp add: cell_defs parse_time_field_def py_range_def upt_rec)
  have ms: "parse_time_field (example_row ! 7) 59 = Inr [0, 30]"
    unfolding example_row_def by (simp add: cell_defs parse_time_field_def py_range_def upt_rec)
  have st: "strip (example_row ! 11) = ''hello''" "strip (example_row ! 12) = ''ACT_X''"
    "strip (example_row ! 13) = ''FF''" "strip (example_row ! 8) = ''*/12''"
    "strip (example_row ! 7) = ''*/30''"
    unfolding example_row_def by (simp_all add: cell_defs)
  have bad: "int_cell (example_bad_row ! 9) = None"
    unfolding example_bad_row_def by (simp add: cell_defs)
  have e0: "load_schedule [example_header] = []" by (simp add: load_rows_def)
  have "blank_row example_bad_row \<or>
    those (map int_cell (take 7 example_bad_row)) = None \<or>
    int_cell (example_bad_row ! 9) = None \<or> int_cell (example_bad_row ! 10) = None \<or>
    (\<exists>e. parse_time_field (example_bad_row ! 8) 23 = Inl e) \<or>
    (\<exists>e. parse_time_field (example_bad_row ! 7) 59 = Inl e)"
    using bad by blast
  from load_schedule_row_expansion [where header = example_header and row = example_bad_row
      and pre = "[]" and post = "[]", unfolded hh mm pv, THEN conjunct2, THEN conjunct1,
      rule_format, OF this]
  have skip: "load_schedule [example_header, example_bad_row] = []"
    using e0 by (simp del: load_schedule.simps)
  note T = load_schedule_row_expansion [where header = example_header and row = example_row
      and pre = "[]" and post = "[example_bad_row]", unfolded hh mm pv]
  have "\<not> blank_row example_row \<and>
      those (map int_cell (take 7 example_row)) = Some [1, 1, 1, 1, 1, 0, 0] \<and>
      int_cell (example_row ! 9) = Some 5 \<and> int_cell (example_row ! 10) = Some 60 \<and>
      parse_time_field (example_row ! 8) 23 = Inr [0, 12] \<and>
      parse_time_field (example_row ! 7) 59 = Inr [0, 30]"
    using nb fl rn du hs ms by simp
  from T [THEN conjunct1, rule_format, OF this]
  obtain es where es: "load_schedule (example_header # [] @ example_row # [example_bad_row])
       = load_schedule (example_header # []) @ es @ load_schedule (example_header # [example_bad_row])"
     "length es = length [0, 12 :: int] * length [0, 30 :: int]"
     "map (\<lambda>e. (hour e, minute e)) es = List.product [0, 12] [0, 30]"
     "list_all (\<lambda>e. [monday e, tuesday e, wednesday e, thursday e, friday e,
                         saturday e, sunday e] = [1, 1, 1, 1, 1, 0, 0] \<and>
                        random_minutes e = 5 \<and> duration e = 60 \<and>
                        toast_text e = strip (example_row ! 11) \<and>
                        action e = strip (example_row ! 12) \<and>
                        data e = strip (example_row ! 13) \<and>
                        hour_expr e = strip (example_row ! 8) \<and>
                        minute_expr e = strip (example_row ! 7)) es"
    by blast
  show ?thesis using es skip e0 unfolding st by (simp del: load_schedule.simps)
qed

section \<open>The playback queue\<close>

lemma path_missing_cong:
  "fs_exists s' = fs_exists s \<Longrightarrow> path_missing s' = path_missing s"
  by (rule ext) (simp add: path_missing_def)

lemma path_missing_emit [simp]: "path_missing (emit ev s) = path_missing s"
  by (rule path_missing_cong) (simp add: emit_def)

lemma played_append [simp]: "played (xs @ ys) = played xs @ played ys"
  by (simp add: played_def)

lemma played_Nil [simp]: "played [] = []"
  by (simp add: played_def)

lemma played_Cons: "played (ev # t) = (case ev of PlayFile p \<Rightarrow> [p] | _ \<Rightarrow> []) @ played t"
  by (simp add: played_def)

declare play_file.simps [simp del] try_play_next_in_queue.simps [simp del]

lemma play_file_shape:
  "\<exists>q p t. play_file path s = s\<lparr>play_queue := q, playing := p, trace := trace s @ t\<rparr> \<and>
      list_all (\<lambda>f. \<not> path_missing s f) (played t) \<and> (\<forall>i. Fired i \<notin> set t) \<and>
      set q \<subseteq> set (play_queue s)"
  and try_play_next_shape:
  "\<exists>q p t. try_play_next_in_queue s = s\<lparr>play_queue := q, playing := p, trace := trace s @ t\<rparr> \<and>
      list_all (\<lambda>f. \<not> path_missing s f) (played t) \<and> (\<forall>i. Fired i \<notin> set t) \<and>
      set q \<subseteq> set (play_queue s)"
proof (induction path s and s rule: play_file_try_play_next_in_queue.induct)
  case (1 path s)
  show ?case
  proof (cases "path_missing s path")
    case True
    from 1 [OF True] obtain q p t where
      h: "try_play_next_in_queue (emit (LogNotFound path) s) =
            (emit (LogNotFound path) s)\<lparr>play_queue := q, playing := p,
               trace := trace (emit (LogNotFound path) s) @ t\<rparr>"
         "list_all (\<lambda>f. \<not> path_missing (emit (LogNotFound path) s) f) (played t)"
         "\<forall>i. Fired i \<notin> set t"
         "set q \<subseteq> set (play_queue (emit (LogNotFound path) s))"
      by blast
    have "play_file path s = s\<lparr>play_queue := q, playing := p,
            trace := trace s @ (LogNotFound path # t)\<rparr>"
      using True h(1) by (simp add: emit_def play_file.simps [of path s])
    moreover have "list_all (\<lambda>f. \<not> path_missing s f) (played (LogNotFound path # t))"
      using h(2) by (simp add: played_Cons)
    moreover have "\<forall>i. Fired i \<notin> set (LogNotFound path # t)" using h(3) by simp
    moreover have "set q \<subseteq> set (play_queue s)" using h(4) by (simp add: emit_def)
    ultimately show ?thesis by blast
  next
    case False
    then have "play_file path s = s\<lparr>play_queue := play_queue s, playing := True,
            trace := trace s @ [PlayFile path]\<rparr>"
      by (simp add: emit_def play_file.simps [of path s])
    moreover have "list_all (\<lambda>f. \<not> path_missing s f) (played [PlayFile path])"
      using False by (simp add: played_Cons)
    moreover have "\<forall>i. Fired i \<notin> set [PlayFile path]" by simp
    ultimately show ?thesis by blast
  qed
next
  case (2 s)
  show ?case
  proof (cases "play_queue s")
    case Nil
    then have "try_play_next_in_queue s = s\<lparr>play_queue := play_queue s, playing := False,
            trace := trace s @ [StopToClock]\<rparr>"
      by (simp add: emit_def try_play_next_in_queue.simps [of s])
    moreover have "list_all (\<lambda>f. \<not> path_missing s f) (played [StopToClock])"
      by (simp add: played_Cons)
    moreover have "\<forall>i. Fired i \<notin> set [StopToClock]" by simp
    ultimately show ?thesis by blast
  next
    case (Cons next_path rest)
    from 2 [OF Cons] obtain q p t where
      h: "play_file next_path (s\<lparr>play_queue := rest\<rparr>) =
            (s\<lparr>play_queue := rest\<rparr>)\<lparr>play_queue := q, playing := p,
               trace := trace (s\<lparr>play_queue := rest\<rparr>) @ t\<rparr>"
         "list_all (\<lambda>f. \<not> path_missing (s\<lparr>play_queue := rest\<rparr>) f) (played t)"
         "\<forall>i. Fired i \<notin> set t"
         "set q \<subseteq> set (play_queue (s\<lparr>play_queue := rest\<rparr>))"
      by blast
    have pm: "path_missing (s\<lparr>play_queue := rest\<rparr>) = path_missing s"
      by (rule path_missing_cong) simp
    have "try_play_next_in_queue s = s\<lparr>play_queue := q, playing := p, trace := trace s @ t\<rparr>"
      using Cons h(1) by (simp add: try_play_next_in_queue.simps [of s])
    moreover have "list_all (\<lambda>f. \<not> path_missing s f) (played t)"
      using h(2) by (simp add: pm)
    moreover have "set q \<subseteq> set (play_queue s)" using h(4) Cons by auto
    ultimately show ?thesis using h(3) by blast
  qed
qed

lemma steady_refl [simp]: "steady s s"
  by (simp add: steady_def)

lemma steady_trans: "steady a b \<Longrightarrow> steady b c \<Longrightarrow> steady a c"
proof -
  assume ab: "steady a b" and bc: "steady b c"
  from ab obtain t where t: "trace b = trace a @ t" "\<forall>i. Fired i \<notin> set t"
      "list_all (\<lambda>f. \<not> path_missing a f) (played t)" by (auto simp: steady_def)
  from bc obtain u where u: "trace c = trace b @ u" "\<forall>i. Fired i \<notin> set u"
      "list_all (\<lambda>f. \<not> path_missing b f) (played u)" by (auto simp: steady_def)
  have pm: "path_missing b = path_missing a"
    using ab by (intro path_missing_cong) (simp add: steady_def)
  have "trace c = trace a @ (t @ u) \<and> (\<forall>i. Fired i \<notin> set (t @ u)) \<and>
        list_all (\<lambda>f. \<not> path_missing a f) (played (t @ u))"
    using t u pm by simp
  then have "\<exists>w. trace c = trace a @ w \<and> (\<forall>i. Fired i \<notin> set w) \<and>
        list_all (\<lambda>f. \<not> path_missing a f) (played w)" by blast
  then show ?thesis using ab bc unfolding steady_def by auto
qed

lemma queue_exists_cong:
  "fs_exists s' = fs_exists s \<Longrightarrow> play_queue s' = play_queue s \<Longrightarrow> queue_exists s' = queue_exists s"
  using path_missing_cong [of s' s] by (simp add: queue_exists_def)

lemma ids_fresh_cong:
  "idle_sources s' = idle_sources s \<Longrightarrow> timeout_sources s' = timeout_sources s \<Longrightarrow>
   next_source_id s' = next_source_id s \<Longrightarrow> ids_fresh s' = ids_fresh s"
  by (simp add: ids_fresh_def)

lemma steady_emit:
  assumes "\<forall>i. ev \<noteq> Fired i" "\<forall>p. ev \<noteq> PlayFile p"
  shows "steady s (emit ev s)"
proof -
  have "played [ev] = []" using assms(2) by (cases ev) (simp_all add: played_Cons)
  then have "trace (emit ev s) = trace s @ [ev] \<and> (\<forall>i. Fired i \<notin> set [ev]) \<and>
        list_all (\<lambda>f. \<not> path_missing s f) (played [ev])"
    using assms(1) by (auto simp: emit_def)
  then have "\<exists>t. trace (emit ev s) = trace s @ t \<and> (\<forall>i. Fired i \<notin> set t) \<and>
        list_all (\<lambda>f. \<not> path_missing s f) (played t)" by blast
  moreover have "queue_exists (emit ev s) = queue_exists s"
    by (rule queue_exists_cong) (simp_all add: emit_def)
  moreover have "ids_fresh (emit ev s) = ids_fresh s"
    by (rule ids_fresh_cong) (simp_all add: emit_def)
  ultimately show ?thesis unfolding steady_def by (simp add: emit_def)
qed

lemma steady_play_file: "steady s (play_file path s)"
proof -
  from play_file_shape [of path s] obtain q p t where
    h: "play_file path s = s\<lparr>play_queue := q, playing := p, trace := trace s @ t\<rparr>"
       "list_all (\<lambda>f. \<not> path_missing s f) (played t)" "\<forall>i. Fired i \<notin> set t"
       "set q \<subseteq> set (play_queue s)" by blast
  have "queue_exists s \<longrightarrow> queue_exists (play_file path s)"
    unfolding h(1) using h(4) by (auto simp: queue_exists_def path_missing_def list_all_iff)
  moreover have "ids_fresh (play_file path s) = ids_fresh s"
    unfolding h(1) by (rule ids_fresh_cong) simp_all
  moreover have "\<exists>u. trace (play_file path s) = trace s @ u \<and> (\<forall>i. Fired i \<notin> set u) \<and>
        list_all (\<lambda>f. \<not> path_missing s f) (played u)"
    unfolding h(1) using h(2,3) by auto
  moreover have "schedule (play_file path s) = schedule s \<and> actions_script (play_file path s) = actions_script s \<and>
      today_key (play_file path s) = today_key s \<and> today_offsets (play_file path s) = today_offsets s \<and>
      today_fired (play_file path s) = today_fired s \<and>
      manual_action_last_trigger (play_file path s) = manual_action_last_trigger s \<and>
      fs_exists (play_file path s) = fs_exists s \<and> last_seen_hour (play_file path s) = last_seen_hour s \<and>
      next_source_id s \<le> next_source_id (play_file path s)"
    unfolding h(1) by simp
  ultimately show ?thesis unfolding steady_def by blast
qed

lemma steady_try_play_next: "steady s (try_play_next_in_queue s)"
proof -
  from try_play_next_shape [of s] obtain q p t where
    h: "try_play_next_in_queue s = s\<lparr>play_queue := q, playing := p, trace := trace s @ t\<rparr>"
       "list_all (\<lambda>f. \<not> path_missing s f) (played t)" "\<forall>i. Fired i \<notin> set t"
       "set q \<subseteq> set (play_queue s)" by blast
  have "queue_exists s \<longrightarrow> queue_exists (try_play_next_in_queue s)"
    unfolding h(1) using h(4) by (auto simp: queue_exists_def path_missing_def list_all_iff)
  moreover have "ids_fresh (try_play_next_in_queue s) = ids_fresh s"
    unfolding h(1) by (rule ids_fresh_cong) simp_all
  moreover have "\<exists>u. trace (try_play_next_in_queue s) = trace s @ u \<and> (\<forall>i. Fired i \<notin> set u) \<and>
        list_all (\<lambda>f. \<not> path_missing s f) (played u)"
    unfolding h(1) using h(2,3) by auto
  moreover have "schedule (try_play_next_in_queue s) = schedule s \<and> actions_script (try_play_next_in_queue s) = actions_script s \<and>
      today_key (try_play_next_in_queue s) = today_key s \<and> today_offsets (try_play_next_in_queue s) = today_offsets s \<and>
      today_fired (try_play_next_in_queue s) = today_fired s \<and>
      manual_action_last_trigger (try_play_next_in_queue s) = manual_action_last_trigger s \<and>
      fs_exists (try_play_next_in_queue s) = fs_exists s \<and> last_seen_hour (try_play_next_in_queue s) = last_seen_hour s \<and>
      next_source_id s \<le> next_source_id (try_play_next_in_queue s)"
    unfolding h(1) by simp
  ultimately show ?thesis unfolding steady_def by blast
qed

lemma steady_playing [simp]: "steady s (s\<lparr>playing := b\<rparr>)"
  unfolding steady_def
  by (simp add: queue_exists_cong [of "s\<lparr>playing := b\<rparr>" s] ids_fresh_cong [of "s\<lparr>playing := b\<rparr>" s])

lemma steady_enqueue_file: "steady s (enqueue_file path s)"
proof (cases "path_missing s path")
  case True
  then show ?thesis by (simp add: enqueue_file_def steady_emit)
next
  case False
  show ?thesis
  proof (cases "playing s")
    case False
    with \<open>\<not> path_missing s path\<close> show ?thesis
      using steady_play_file [of s path] by (simp add: enqueue_file_def)
  next
    case True
    let ?s1 = "s\<lparr>play_queue := play_queue s @ [path]\<rparr>"
    have a: "steady s ?s1"
      unfolding steady_def using \<open>\<not> path_missing s path\<close>
      by (simp add: queue_exists_def path_missing_def ids_fresh_def)
    have "steady ?s1 (emit (LogQueued path) ?s1)" by (rule steady_emit) simp_all
    with a have "steady s (emit (LogQueued path) ?s1)" by (rule steady_trans)
    with True \<open>\<not> path_missing s path\<close> show ?thesis by (simp add: enqueue_file_def)
  qed
qed

text \<open>
  Claim C7. For a path that exists: \<open>enqueue_file\<close> while nothing is playing
  hands the path to the pipeline at once and sets \<open>playing\<close>; while something
  is playing it appends the path to the tail of the queue. At the end of a
  playback, or at its failure, the head of a queue that is not empty is taken
  off and played (the file being still there), and with an empty queue
  \<open>playing\<close> becomes false and the display goes back to the clock.
\<close>

theorem playback_queue_fifo:
  "(\<not> path_missing s p \<and> \<not> playing s \<longrightarrow>
      enqueue_file p s = (emit (PlayFile p) s)\<lparr>playing := True\<rparr>) \<and>
   (\<not> path_missing s p \<and> playing s \<longrightarrow>
      enqueue_file p s = emit (LogQueued p) (s\<lparr>play_queue := play_queue s @ [p]\<rparr>)) \<and>
   (\<forall>h rest. play_queue s = h # rest \<and> \<not> path_missing s h \<longrightarrow>
      on_eos s = (emit (PlayFile h) (s\<lparr>playing := False, play_queue := rest\<rparr>))\<lparr>playing := True\<rparr> \<and>
      on_error s = (emit (PlayFile h) (s\<lparr>playing := False, play_queue := rest\<rparr>))\<lparr>playing := True\<rparr>) \<and>
   (play_queue s = [] \<longrightarrow>
      on_eos s = emit StopToClock (s\<lparr>playing := False\<rparr>) \<and>
      on_error s = emit StopToClock (s\<lparr>playing := False\<rparr>))"
proof (intro conjI allI impI)
  assume "\<not> path_missing s p \<and> \<not> playing s"
  then show "enqueue_file p s = (emit (PlayFile p) s)\<lparr>playing := True\<rparr>"
    by (simp add: enqueue_file_def play_file.simps [of p s])
next
  assume "\<not> path_missing s p \<and> playing s"
  then show "enqueue_file p s = emit (LogQueued p) (s\<lparr>play_queue := play_queue s @ [p]\<rparr>)"
    by (simp add: enqueue_file_def)
next
  fix h rest assume a: "play_queue s = h # rest \<and> \<not> path_missing s h"
  let ?s1 = "s\<lparr>playing := False\<rparr>"
  have pm: "path_missing (?s1\<lparr>play_queue := rest\<rparr>) = path_missing s"
    by (rule path_missing_cong) simp
  have "try_play_next_in_queue ?s1 = play_file h (?s1\<lparr>play_queue := rest\<rparr>)"
    using a by (simp add: try_play_next_in_queue.simps [of ?s1])
  also have "\<dots> = (emit (PlayFile h) (?s1\<lparr>play_queue := rest\<rparr>))\<lparr>playing := True\<rparr>"
    using a pm by (simp add: play_file.simps [of h "?s1\<lparr>play_queue := rest\<rparr>"])
  finally have r: "try_play_next_in_queue ?s1 =
      (emit (PlayFile h) (s\<lparr>playing := False, play_queue := rest\<rparr>))\<lparr>playing := True\<rparr>" .
  show "on_eos s = (emit (PlayFile h) (s\<lparr>playing := False, play_queue := rest\<rparr>))\<lparr>playing := True\<rparr>"
    using r by (simp add: on_eos_def)
  show "on_error s = (emit (PlayFile h) (s\<lparr>playing := False, play_queue := rest\<rparr>))\<lparr>playing := True\<rparr>"
    using r by (simp add: on_error_def)
next
  assume a: "play_queue s = []"
  then show "on_eos s = emit StopToClock (s\<lparr>playing := False\<rparr>)"
    by (simp add: on_eos_def try_play_next_in_queue.simps [of "s\<lparr>playing := False\<rparr>"] emit_def)
  from a show "on_error s = emit StopToClock (s\<lparr>playing := False\<rparr>)"
    by (simp add: on_error_def try_play_next_in_queue.simps [of "s\<lparr>playing := False\<rparr>"] emit_def)
qed

lemmas example_defs = example_player_def blank_player_def seed_today_offsets_def
  example_entry_def example_steps_def

lemma example_player_fields:
  "play_queue example_player = []" "playing example_player = False"
  "trace example_player = []" "fs_exists example_player = (\<lambda>p. p = ''a.mp4'' \<or> p = ''b.mp4'')"
  by (simp_all add: example_defs)

theorem playback_queue_fifo_witness:
  "played (trace (enqueue_file ''a.mp4'' example_player)) = [''a.mp4''] \<and>
   playing (enqueue_file ''a.mp4'' example_player) \<and>
   play_queue (enqueue_file ''b.mp4'' (enqueue_file ''a.mp4'' example_player)) = [''b.mp4''] \<and>
   played (trace (on_eos (enqueue_file ''b.mp4'' (enqueue_file ''a.mp4'' example_player))))
     = [''a.mp4'', ''b.mp4''] \<and>
   \<not> playing (on_error (on_eos (enqueue_file ''b.mp4'' (enqueue_file ''a.mp4'' example_player)))) \<and>
   last (trace (on_error (on_eos (enqueue_file ''b.mp4'' (enqueue_file ''a.mp4'' example_player)))))
     = StopToClock"
proof -
  define s0 where "s0 = example_player"
  define s1 where "s1 = (emit (PlayFile ''a.mp4'') s0)\<lparr>playing := True\<rparr>"
  define s2 where "s2 = emit (LogQueued ''b.mp4'') (s1\<lparr>play_queue := play_queue s1 @ [''b.mp4'']\<rparr>)"
  define s3 where "s3 = (emit (PlayFile ''b.mp4'') (s2\<lparr>playing := False, play_queue := []\<rparr>))\<lparr>playing := True\<rparr>"
  define s4 where "s4 = emit StopToClock (s3\<lparr>playing := False\<rparr>)"
  have f0: "\<not> path_missing s0 ''a.mp4'' \<and> \<not> playing s0"
    by (simp add: s0_def path_missing_def example_player_fields)
  have e1: "enqueue_file ''a.mp4'' s0 = s1"
    using playback_queue_fifo [of s0 "''a.mp4''"] f0 unfolding s1_def by blast
  have f1: "\<not> path_missing s1 ''b.mp4'' \<and> playing s1"
    by (simp add: s1_def s0_def path_missing_def example_player_fields emit_def)
  have e2: "enqueue_file ''b.mp4'' s1 = s2"
    using playback_queue_fifo [of s1 "''b.mp4''"] f1 unfolding s2_def by blast
  have f2: "play_queue s2 = ''b.mp4'' # [] \<and> \<not> path_missing s2 ''b.mp4''"
    by (simp add: s2_def s1_def s0_def path_missing_def example_player_fields emit_def)
  have e3: "on_eos s2 = s3"
    using playback_queue_fifo [of s2] f2 unfolding s3_def by blast
  have f3: "play_queue s3 = []"
    by (simp add: s3_def emit_def)
  have e4: "on_error s3 = s4"
    using playback_queue_fifo [of s3] f3 unfolding s4_def by blast
  have "played (trace s1) = [''a.mp4''] \<and> playing s1 \<and> play_queue s2 = [''b.mp4''] \<and>
        played (trace s3) = [''a.mp4'', ''b.mp4''] \<and> \<not> playing s4 \<and> last (trace s4) = StopToClock"
    by (simp add: s4_def s3_def s2_def s1_def s0_def example_player_fields emit_def played_Cons)
  then show ?thesis using e1 e2 e3 e4 by (simp add: s0_def)
qed

text \<open>
  Claim C8, as stated, fails for \<open>enqueue_file\<close>: with a file playing and
  \<open>b.mp4\<close> queued, the request for a missing file leaves the queue as it is
  and only prints a line, where the handling of a playback failure takes
  \<open>b.mp4\<close> off the queue and plays it.
\<close>

theorem missing_path_not_a_failure:
  "path_missing (example_player\<lparr>playing := True, play_queue := [''b.mp4'']\<rparr>) ''gone.mp4'' \<and>
   play_queue (enqueue_file ''gone.mp4'' (example_player\<lparr>playing := True, play_queue := [''b.mp4'']\<rparr>))
     = [''b.mp4''] \<and>
   trace (enqueue_file ''gone.mp4'' (example_player\<lparr>playing := True, play_queue := [''b.mp4'']\<rparr>))
     = [LogSkipping ''gone.mp4''] \<and>
   play_queue (on_error (example_player\<lparr>playing := True, play_queue := [''b.mp4'']\<rparr>)) = [] \<and>
   trace (on_error (example_player\<lparr>playing := True, play_queue := [''b.mp4'']\<rparr>))
     = [PlayFile ''b.mp4'']"
  by (simp add: enqueue_file_def on_error_def path_missing_def example_player_fields emit_def
      try_play_next_in_queue.simps play_file.simps)

text \<open>
  Claim C8, amended. A missing path given to \<open>enqueue_file\<close> is logged and
  dropped: queue and playing state stay as they are. A missing path that
  reaches \<open>play_file\<close> is logged and handled as the end of a playback: the next
  queued file is tried, or the player goes idle. The missing path is never
  handed to the pipeline, and every file that is handed to it exists.
\<close>

theorem missing_path_handling:
  "(path_missing s p \<longrightarrow> enqueue_file p s = emit (LogSkipping p) s) \<and>
   (path_missing s p \<longrightarrow> play_file p s = try_play_next_in_queue (emit (LogNotFound p) s)) \<and>
   (path_missing s p \<longrightarrow>
      (\<exists>t. trace (play_file p s) = trace s @ t \<and> p \<notin> set (played t) \<and>
           list_all (\<lambda>f. \<not> path_missing s f) (played t)))"
proof (intro conjI impI)
  assume "path_missing s p"
  then show "enqueue_file p s = emit (LogSkipping p) s" by (simp add: enqueue_file_def)
next
  assume "path_missing s p"
  then show "play_file p s = try_play_next_in_queue (emit (LogNotFound p) s)"
    by (simp add: play_file.simps [of p s])
next
  assume m: "path_missing s p"
  from steady_play_file [of s p] obtain t where
    t: "trace (play_file p s) = trace s @ t" "list_all (\<lambda>f. \<not> path_missing s f) (played t)"
    unfolding steady_def by blast
  from t(2) m have "p \<notin> set (played t)" by (auto simp: list_all_iff)
  with t show "\<exists>t. trace (play_file p s) = trace s @ t \<and> p \<notin> set (played t) \<and>
           list_all (\<lambda>f. \<not> path_missing s f) (played t)" by blast
qed

theorem missing_path_handling_witness:
  "path_missing (example_player\<lparr>play_queue := [''b.mp4'']\<rparr>) ''gone.mp4'' \<and>
   enqueue_file ''gone.mp4'' (example_player\<lparr>play_queue := [''b.mp4'']\<rparr>)
     = emit (LogSkipping ''gone.mp4'') (example_player\<lparr>play_queue := [''b.mp4'']\<rparr>) \<and>
   play_file ''gone.mp4'' (example_player\<lparr>play_queue := [''b.mp4'']\<rparr>)
     = try_play_next_in_queue
         (emit (LogNotFound ''gone.mp4'') (example_player\<lparr>play_queue := [''b.mp4'']\<rparr>)) \<and>
   (\<exists>t. trace (play_file ''gone.mp4'' (example_player\<lparr>play_queue := [''b.mp4'']\<rparr>))
          = trace (example_player\<lparr>play_queue := [''b.mp4'']\<rparr>) @ t \<and>
        ''gone.mp4'' \<notin> set (played t) \<and>
        list_all (\<lambda>f. \<not> path_missing (example_player\<lparr>play_queue := [''b.mp4'']\<rparr>) f) (played t)) \<and>
   played (trace (play_file ''gone.mp4'' (example_player\<lparr>play_queue := [''b.mp4'']\<rparr>)))
     = [''b.mp4'']"
proof -
  have m: "path_missing (example_player\<lparr>play_queue := [''b.mp4'']\<rparr>) ''gone.mp4''"
    by (simp add: path_missing_def example_player_fields)
  have "played (trace (play_file ''gone.mp4'' (example_player\<lparr>play_queue := [''b.mp4'']\<rparr>)))
     = [''b.mp4'']"
    by (simp add: path_missing_def example_player_fields emit_def played_Cons
      try_play_next_in_queue.simps play_file.simps)
  with m missing_path_handling [of "example_player\<lparr>play_queue := [''b.mp4'']\<rparr>" "''gone.mp4''"]
  show ?thesis by blast
qed

section \<open>What the action runner leaves alone\<close>

lemma steadyI:
  assumes "schedule s' = schedule s" "actions_script s' = actions_script s"
    "today_key s' = today_key s" "today_offsets s' = today_offsets s"
    "today_fired s' = today_fired s"
    "manual_action_last_trigger s' = manual_action_last_trigger s"
    "fs_exists s' = fs_exists s" "last_seen_hour s' = last_seen_hour s"
    "trace s' = trace s" "play_queue s' = play_queue s"
    "ids_fresh s \<longrightarrow> ids_fresh s'" "next_source_id s \<le> next_source_id s'"
  shows "steady s s'"
proof -
  have "\<exists>t. trace s' = trace s @ t \<and> (\<forall>i. Fired i \<notin> set t) \<and>
           list_all (\<lambda>f. \<not> path_missing s f) (played t)"
    using assms(9) by (intro exI [of _ "[]"]) simp
  moreover have "queue_exists s' = queue_exists s"
    using assms(7,10) by (rule queue_exists_cong)
  ultimately show ?thesis using assms unfolding steady_def by blast
qed

lemma steady_rng_pos: "steady s (s\<lparr>rng_pos := n\<rparr>)"
  by (rule steadyI) (simp_all add: ids_fresh_def)

lemma steady_step_timer: "steady s (s\<lparr>step_timer_source := h\<rparr>)"
  by (rule steadyI) (simp_all add: ids_fresh_def)

lemma steady_running: "steady s (s\<lparr>action_running := b, current_action_name := n\<rparr>)"
  by (rule steadyI) (simp_all add: ids_fresh_def)

lemma steady_last_played: "steady s (s\<lparr>last_played_hour := h\<rparr>)"
  by (rule steadyI) (simp_all add: ids_fresh_def)

lemma steady_idle_add: "steady s (idle_add steps idx s)"
  by (rule steadyI) (auto simp: idle_add_def ids_fresh_def list_all_iff)

lemma steady_timeout_add:
  assumes "timeout_add_seconds sec steps idx s = Inr (h, s')"
  shows "steady s s'"
proof -
  have "s' = s\<lparr>timeout_sources := timeout_sources s @ [(next_source_id s, sec, steps, idx)],
                  next_source_id := next_source_id s + 1\<rparr>"
    using assms by (auto simp: timeout_add_seconds_def split: if_splits)
  then show ?thesis by (intro steadyI) (auto simp: ids_fresh_def list_all_iff)
qed

lemma steady_source_remove: "steady s (source_remove h s)"
  by (rule steadyI) (auto simp: source_remove_def ids_fresh_def list_all_iff)

lemma steady_cancel_step_timer: "steady s (cancel_step_timer s)"
proof (cases "step_timer_source s")
  case None
  then show ?thesis by (simp add: cancel_step_timer_def)
next
  case (Some h)
  show ?thesis
  proof (cases "h = 0")
    case True
    with Some show ?thesis by (simp add: cancel_step_timer_def)
  next
    case False
    have "steady s ((source_remove h s)\<lparr>step_timer_source := None\<rparr>)"
      using steady_source_remove [of s h] steady_step_timer [of "source_remove h s" None]
      by (rule steady_trans)
    with Some False show ?thesis by (simp add: cancel_step_timer_def)
  qed
qed

lemma steady_show_toast: "steady s (show_toast m s)"
  by (simp add: show_toast_def steady_emit)

lemma steady_randint: "steady s (snd (randint a b s))"
  by (simp add: randint_def steady_rng_pos)

lemma steady_expand_from: "steady s (snd (expand_from k pat s))"
proof (induction pat arbitrary: k s)
  case Nil
  show ?case by simp
next
  case (Cons c cs)
  show ?case
  proof (cases k)
    case (Suc k')
    then show ?thesis using Cons [of s k'] by simp
  next
    case 0
    show ?thesis
    proof (cases "match_range (c # cs)")
      case None
      obtain out s1 where e: "expand_from 0 cs s = (out, s1)" by (cases "expand_from 0 cs s")
      with Cons [of s 0] have "steady s s1" by simp
      with 0 None e show ?thesis by simp
    next
      case (Some m)
      obtain g1 g2 len where m: "m = (g1, g2, len)" by (cases m) auto
      show ?thesis
      proof (cases "py_int g1")
        case None
        with 0 Some m show ?thesis by simp
      next
        case a: (Some a)
        show ?thesis
        proof (cases "py_int g2")
          case None
          with 0 Some m a show ?thesis by simp
        next
          case b: (Some b)
          obtain n s1 where r: "randint (min a b) (max a b) s = (n, s1)"
            by (cases "randint (min a b) (max a b) s")
          obtain out s2 where e: "expand_from (len - 1) cs s1 = (out, s2)"
            by (cases "expand_from (len - 1) cs s1")
          have "steady s s1" using steady_randint [of s "min a b" "max a b"] r by simp
          moreover have "steady s1 s2" using Cons [of s1 "len - 1"] e by simp
          ultimately have "steady s s2" by (rule steady_trans)
          with 0 Some m a b r e show ?thesis by simp
        qed
      qed
    qed
  qed
qed

lemma steady_run_steps_chain: "steady s (snd (run_steps_chain steps idx s))"
proof (cases "idx \<ge> length steps")
  case True
  have "steady s (emit (LogFinished (current_action_name s)) s)"
    by (rule steady_emit) simp_all
  moreover have "steady (emit (LogFinished (current_action_name s)) s)
      ((emit (LogFinished (current_action_name s)) s)
         \<lparr>action_running := False, current_action_name := None\<rparr>)"
    by (rule steady_running)
  ultimately show ?thesis using True by (simp add: run_steps_chain_def steady_trans)
next
  case False
  show ?thesis
  proof (cases "steps ! idx")
    case Malformed
    have "steady s (emit LogMalformedStep s)" by (rule steady_emit) simp_all
    then have "steady s (idle_add steps (idx + 1) (emit LogMalformedStep s))"
      using steady_idle_add steady_trans by blast
    with False Malformed show ?thesis by (simp add: run_steps_chain_def)
  next
    case (Single op v)
    define op_u where "op_u = upper (strip op)"
    consider (play) "op_u = ''PLAY''" | (rand) "op_u = ''PLAY-RANDOM''" | (wait) "op_u = ''WAIT''"
      | (toast) "op_u = ''TOAST-MESSAGE''"
      | (other) "op_u \<noteq> ''PLAY''" "op_u \<noteq> ''PLAY-RANDOM''" "op_u \<noteq> ''WAIT''"
          "op_u \<noteq> ''TOAST-MESSAGE''"
      by blast
    then show ?thesis
    proof cases
      case play
      have "steady s (idle_add steps (idx + 1) (enqueue_file v s))"
        using steady_enqueue_file [of s v] steady_idle_add steady_trans by blast
      with False Single play show ?thesis by (simp add: run_steps_chain_def op_u_def)
    next
      case rand
      obtain r s1 where e: "expand_play_random v s = (r, s1)"
        by (cases "expand_play_random v s") auto
      have s1: "steady s s1" using steady_expand_from [of s 0 v] e
        by (simp add: expand_play_random_def)
      show ?thesis
      proof (cases r)
        case (Inl err)
        with False Single rand e s1 show ?thesis by (simp add: run_steps_chain_def op_u_def)
      next
        case (Inr path)
        from s1 have "steady s (enqueue_file path s1)"
          using steady_enqueue_file steady_trans by blast
        then have "steady s (idle_add steps (idx + 1) (enqueue_file path s1))"
          using steady_idle_add steady_trans by blast
        with False Single rand e Inr show ?thesis by (simp add: run_steps_chain_def op_u_def)
      qed
    next
      case wait
      show ?thesis
      proof (cases "wait_minutes v")
        case (Inl err)
        with False Single wait show ?thesis by (simp add: run_steps_chain_def op_u_def)
      next
        case (Inr minutes)
        define s1 where "s1 = cancel_step_timer (emit (LogWaiting minutes) s)"
        have "steady s (emit (LogWaiting minutes) s)" by (rule steady_emit) simp_all
        then have s1: "steady s s1" unfolding s1_def
          using steady_cancel_step_timer steady_trans by blast
        show ?thesis
        proof (cases "timeout_add_seconds (minutes * 60) steps (idx + 1) s1")
          case err: (Inl err)
          with False Single wait Inr s1 show ?thesis
            by (simp add: run_steps_chain_def op_u_def s1_def Let_def)
        next
          case ok: (Inr p)
          obtain h s2 where p: "p = (h, s2)" by (cases p)
          have "steady s1 s2" using steady_timeout_add ok p by blast
          with s1 have "steady s s2" by (rule steady_trans)
          then have "steady s (s2\<lparr>step_timer_source := Some h\<rparr>)"
            using steady_step_timer steady_trans by blast
          with False Single wait Inr ok p show ?thesis
            by (simp add: run_steps_chain_def op_u_def s1_def Let_def)
        qed
      qed
    next
      case toast
      have "steady s (idle_add steps (idx + 1) (show_toast v s))"
        using steady_show_toast [of s v] steady_idle_add steady_trans by blast
      with False Single toast show ?thesis by (simp add: run_steps_chain_def op_u_def)
    next
      case other
      have "steady s (emit (LogUnknownOp op) s)" by (rule steady_emit) simp_all
      then have "steady s (idle_add steps (idx + 1) (emit (LogUnknownOp op) s))"
        using steady_idle_add steady_trans by blast
      with False Single other show ?thesis by (simp add: run_steps_chain_def op_u_def)
    qed
  qed
qed

lemma steady_run_action: "steady s (snd (run_action a s))"
proof (cases "actions_script s a")
  case None
  then show ?thesis by (simp add: run_action_def steady_emit)
next
  case (Some steps)
  show ?thesis
  proof (cases "steps = []")
    case True
    with Some show ?thesis by (simp add: run_action_def steady_emit)
  next
    case False
    define s1 where "s1 = (if action_running s
                       then emit (LogAlreadyRunning (current_action_name s)) s else s)"
    define s2 where "s2 = s1\<lparr>action_running := True, current_action_name := Some a\<rparr>"
    have "steady s s1" by (simp add: s1_def steady_emit)
    moreover have "steady s1 s2" unfolding s2_def by (rule steady_running)
    ultimately have "steady s s2" by (rule steady_trans)
    moreover have "steady s2 (emit (LogStarting a) s2)" by (rule steady_emit) simp_all
    ultimately have "steady s (emit (LogStarting a) s2)" by (rule steady_trans)
    then have "steady s (snd (run_steps_chain steps 0 (emit (LogStarting a) s2)))"
      using steady_run_steps_chain steady_trans by blast
    with Some False show ?thesis by (simp add: run_action_def s1_def s2_def Let_def)
  qed
qed

lemma steady_enqueue_hour_video: "steady s (enqueue_hour_video h s)"
proof -
  have "steady s ((enqueue_file (path_for_hour s h) s)\<lparr>last_played_hour := Some h\<rparr>)"
    using steady_enqueue_file [of s "path_for_hour s h"] steady_last_played steady_trans by blast
  then show ?thesis by (simp add: enqueue_hour_video_def Let_def steady_emit)
qed

section \<open>What the scheduler keeps over a day\<close>

lemma fired_count_steady: "steady s s' \<Longrightarrow> fired_count i s' = fired_count i s"
proof -
  assume "steady s s'"
  then obtain t where t: "trace s' = trace s @ t" "\<forall>i. Fired i \<notin> set t"
    unfolding steady_def by blast
  then have "count_list t (Fired i) = 0" by (simp add: count_list_0_iff)
  with t show ?thesis by (simp add: fired_count_def)
qed

lemma day_kept_refl [simp]: "day_kept s s"
  by (simp add: day_kept_def)

lemma day_kept_trans: "day_kept a b \<Longrightarrow> day_kept b c \<Longrightarrow> day_kept a c"
  unfolding day_kept_def by (metis order_trans)

lemma steady_day_kept: "steady s s' \<Longrightarrow> day_kept s s'"
proof -
  assume st: "steady s s'"
  then have "today_key s' = today_key s" "today_offsets s' = today_offsets s"
    "today_fired s' = today_fired s" unfolding steady_def by simp_all
  moreover have "\<And>i. fired_count i s' = fired_count i s" using st by (rule fired_count_steady)
  ultimately show ?thesis by (simp add: day_kept_def fire_budget_def)
qed

lemma day_kept_cong:
  assumes "today_key s' = today_key s" "today_offsets s' = today_offsets s"
    "today_fired s' = today_fired s" "trace s' = trace s"
  shows "day_kept s s'"
  using assms by (simp add: day_kept_def fired_count_def fire_budget_def)

lemma day_kept_fire_mark:
  assumes "today_fired s idx \<noteq> Some True"
  shows "day_kept s ((emit (Fired idx) s)\<lparr>today_fired := (today_fired s)(idx \<mapsto> True)\<rparr>)"
  using assms by (auto simp: day_kept_def fired_count_def fire_budget_def emit_def)

lemma day_kept_fire_entry:
  assumes "today_fired s idx \<noteq> Some True"
  shows "day_kept s (snd (fire_entry idx e s))"
proof -
  define s1 where "s1 = (emit (Fired idx) s)\<lparr>today_fired := (today_fired s)(idx \<mapsto> True)\<rparr>"
  define s2 where "s2 = (if toast_text e \<noteq> [] then show_toast (toast_text e) s1 else s1)"
  have a: "day_kept s s1" unfolding s1_def using assms by (rule day_kept_fire_mark)
  have "steady s1 s2" by (simp add: s2_def steady_show_toast)
  then have "day_kept s1 s2" by (rule steady_day_kept)
  with a have b: "day_kept s s2" by (rule day_kept_trans)
  have "day_kept s2 (snd (run_action (action e) s2))"
    using steady_run_action by (rule steady_day_kept)
  with b have c: "day_kept s (snd (run_action (action e) s2))" by (rule day_kept_trans)
  have eq: "snd (fire_entry idx e s)
      = (if action e \<noteq> [] then snd (run_action (action e) s2) else s2)"
    by (simp add: fire_entry_def Let_def s1_def s2_def)
  show ?thesis unfolding eq using b c by simp
qed

lemma check_entries_rel:
  assumes refl: "\<And>s. R s s"
    and trans: "\<And>a b c. R a b \<Longrightarrow> R b c \<Longrightarrow> R a c"
    and fire: "\<And>idx e s. today_fired s idx \<noteq> Some True \<Longrightarrow> R s (snd (fire_entry idx e s))"
  shows "R s (snd (check_entries now xs s))"
proof (induction xs arbitrary: s)
  case Nil
  show ?case by (simp add: refl)
next
  case (Cons x xs)
  obtain idx e where x: "x = (idx, e)" by (cases x)
  show ?case
  proof (cases "weekday_flags e ! weekday now = 0 \<or> today_fired s idx = Some True")
    case True
    then show ?thesis using Cons [of s] x by auto
  next
    case False
    show ?thesis
    proof (cases "fire_dt now e (case today_offsets s idx of None \<Rightarrow> 0 | Some v \<Rightarrow> v)")
      case (Inl err)
      with False x show ?thesis by (simp add: refl)
    next
      case (Inr f)
      show ?thesis
      proof (cases "no_microsecond now = f")
        case ne: False
        with False x Inr show ?thesis using Cons [of s] by simp
      next
        case eq: True
        obtain r s' where fe: "fire_entry idx e s = (r, s')" by (cases "fire_entry idx e s")
        have a: "R s s'" using fire [of s idx e] False fe by simp
        show ?thesis
        proof (cases r)
          case None
          have "R s (snd (check_entries now xs s'))" using a Cons [of s'] by (rule trans)
          with False x Inr eq fe None show ?thesis by simp
        next
          case (Some err)
          with False x Inr eq fe a show ?thesis by simp
        qed
      qed
    qed
  qed
qed

lemma day_kept_check_entries: "day_kept s (snd (check_entries now xs s))"
  by (rule check_entries_rel [where R = day_kept])
     (simp_all add: day_kept_fire_entry, erule (1) day_kept_trans)

lemma seed_entries_shape:
  "\<exists>ofs fl r. seed_entries xs s = s\<lparr>today_offsets := ofs, today_fired := fl, rng_pos := r\<rparr>"
proof (induction xs arbitrary: s)
  case Nil
  have "s = s\<lparr>today_offsets := today_offsets s, today_fired := today_fired s, rng_pos := rng_pos s\<rparr>"
    by simp
  then show ?case by (metis seed_entries.simps(1))
next
  case (Cons x xs)
  obtain idx e where x: "x = (idx, e)" by (cases x)
  define arg where "arg = (let s1 = (if today_offsets s idx = None
                then (let rnd = max 0 (random_minutes e);
                          (off, s') = (if rnd > 0 then randint 0 rnd s else (0, s))
                      in s'\<lparr>today_offsets := (today_offsets s')(idx \<mapsto> off)\<rparr>)
                else s)
      in s1\<lparr>today_fired := (today_fired s1)(idx \<mapsto> False)\<rparr>)"
  have step: "seed_entries (x # xs) s = seed_entries xs arg"
    by (simp add: x arg_def Let_def)
  have "\<exists>o1 f1 r1. arg = s\<lparr>today_offsets := o1, today_fired := f1, rng_pos := r1\<rparr>"
  proof (cases "today_offsets s idx")
    case (Some v)
    then have "arg = s\<lparr>today_offsets := today_offsets s,
        today_fired := (today_fired s)(idx \<mapsto> False), rng_pos := rng_pos s\<rparr>"
      by (simp add: arg_def)
    then show ?thesis by blast
  next
    case None
    show ?thesis
    proof (cases "max 0 (random_minutes e) > 0")
      case gt: True
      with None have "arg = s\<lparr>today_offsets := (today_offsets s)(idx \<mapsto>
             fst (randint 0 (max 0 (random_minutes e)) s)),
           today_fired := (today_fired s)(idx \<mapsto> False), rng_pos := rng_pos s + 1\<rparr>"
        by (simp add: arg_def Let_def randint_def)
      then show ?thesis by blast
    next
      case le: False
      with None have "arg = s\<lparr>today_offsets := (today_offsets s)(idx \<mapsto> 0),
           today_fired := (today_fired s)(idx \<mapsto> False), rng_pos := rng_pos s\<rparr>"
        by (simp add: arg_def Let_def)
      then show ?thesis by blast
    qed
  qed
  then obtain o1 f1 r1 where arg: "arg = s\<lparr>today_offsets := o1, today_fired := f1, rng_pos := r1\<rparr>"
    by blast
  from Cons [of arg] obtain ofs fl r where
    "seed_entries xs arg = arg\<lparr>today_offsets := ofs, today_fired := fl, rng_pos := r\<rparr>" by blast
  then have "seed_entries (x # xs) s = s\<lparr>today_offsets := ofs, today_fired := fl, rng_pos := r\<rparr>"
    using step arg by simp
  then show ?case by blast
qed

lemma seed_today_offsets_shape:
  "\<exists>ofs fl r. seed_today_offsets f s = s\<lparr>today_offsets := ofs, today_fired := fl, rng_pos := r\<rparr>"
proof -
  define s0 where "s0 = (if f then s\<lparr>today_offsets := Map.empty, today_fired := Map.empty\<rparr> else s)"
  from seed_entries_shape [of "enumerate 0 (schedule s)" s0] obtain ofs fl r where
    "seed_entries (enumerate 0 (schedule s)) s0 = s0\<lparr>today_offsets := ofs, today_fired := fl, rng_pos := r\<rparr>"
    by blast
  then have "seed_today_offsets f s = s\<lparr>today_offsets := ofs, today_fired := fl, rng_pos := r\<rparr>"
    by (simp add: seed_today_offsets_def s0_def)
  then show ?thesis by blast
qed

lemma day_kept_tick:
  assumes "ordinal now = today_key s"
  shows "day_kept s (snd (tick now s))"
proof -
  define s2 where "s2 = (if dt_hour now \<noteq> last_seen_hour s
                then enqueue_hour_video (dt_hour now) (s\<lparr>last_seen_hour := dt_hour now\<rparr>)
                else s)"
  have "day_kept s (s\<lparr>last_seen_hour := dt_hour now\<rparr>)" by (rule day_kept_cong) simp_all
  moreover have "day_kept (s\<lparr>last_seen_hour := dt_hour now\<rparr>)
      (enqueue_hour_video (dt_hour now) (s\<lparr>last_seen_hour := dt_hour now\<rparr>))"
    using steady_enqueue_hour_video by (rule steady_day_kept)
  ultimately have a: "day_kept s s2" unfolding s2_def by (auto intro: day_kept_trans)
  have sch: "schedule s2 = schedule s"
    using steady_enqueue_hour_video [of "s\<lparr>last_seen_hour := dt_hour now\<rparr>" "dt_hour now"]
    by (simp add: s2_def steady_def)
  have "day_kept s2 (snd (check_entries now (enumerate 0 (schedule s2)) s2))"
    by (rule day_kept_check_entries)
  with a have "day_kept s (snd (check_entries now (enumerate 0 (schedule s2)) s2))"
    by (rule day_kept_trans)
  then show ?thesis using assms
    by (simp add: tick_def check_and_fire_scheduled_def s2_def Let_def)
qed

lemma day_kept_play_manual: "day_kept s (snd (play_manual_action_once a now s))"
proof -
  let ?s1 = "s\<lparr>manual_action_last_trigger := (manual_action_last_trigger s)(a \<mapsto> now)\<rparr>"
  have "day_kept s ?s1" by (rule day_kept_cong) simp_all
  moreover have "day_kept ?s1 (snd (run_action a ?s1))"
    using steady_run_action by (rule steady_day_kept)
  ultimately have "day_kept s (snd (run_action a ?s1))" by (rule day_kept_trans)
  moreover have "day_kept s (emit (LogIgnoringRepeat a) s)"
    by (rule steady_day_kept, rule steady_emit) simp_all
  moreover have "day_kept s (emit (LogAlreadyRunningIgnored a) s)"
    by (rule steady_day_kept, rule steady_emit) simp_all
  ultimately show ?thesis by (simp add: play_manual_action_once_def)
qed

lemma day_kept_handle:
  assumes "same_day (today_key s) i"
  shows "day_kept s (handle i s)"
proof (cases i)
  case (Tick now)
  with assms have "ordinal now = today_key s" by (simp add: same_day_def no_reset_def)
  then show ?thesis using Tick by (simp add: handle_def day_kept_tick)
next
  case (IdleDispatch h)
  show ?thesis
  proof (cases "filter (\<lambda>src. fst src = h) (idle_sources s)")
    case Nil
    with IdleDispatch show ?thesis by (simp add: handle_def)
  next
    case (Cons src others)
    obtain h' steps idx where src: "src = (h', steps, idx)" by (cases src)
    let ?s1 = "s\<lparr>idle_sources := filter (\<lambda>src. fst src \<noteq> h) (idle_sources s)\<rparr>"
    have "day_kept s ?s1" by (rule day_kept_cong) simp_all
    moreover have "day_kept ?s1 (snd (run_steps_chain steps idx ?s1))"
      using steady_run_steps_chain by (rule steady_day_kept)
    ultimately have "day_kept s (snd (run_steps_chain steps idx ?s1))" by (rule day_kept_trans)
    with IdleDispatch Cons src show ?thesis by (simp add: handle_def)
  qed
next
  case (TimeoutExpired h)
  show ?thesis
  proof (cases "filter (\<lambda>src. fst src = h) (timeout_sources s)")
    case Nil
    with TimeoutExpired show ?thesis by (simp add: handle_def)
  next
    case (Cons src others)
    obtain h' seconds steps idx where src: "src = (h', seconds, steps, idx)" by (cases src)
    let ?s1 = "s\<lparr>timeout_sources := filter (\<lambda>src. fst src \<noteq> h) (timeout_sources s),
                  step_timer_source := None\<rparr>"
    have "day_kept s ?s1" by (rule day_kept_cong) simp_all
    moreover have "day_kept ?s1 (snd (run_steps_chain steps idx ?s1))"
      using steady_run_steps_chain by (rule steady_day_kept)
    ultimately have "day_kept s (snd (run_steps_chain steps idx ?s1))" by (rule day_kept_trans)
    with TimeoutExpired Cons src show ?thesis by (simp add: handle_def after_wait_continue_def)
  qed
next
  case Eos
  have "day_kept s (s\<lparr>playing := False\<rparr>)" by (rule day_kept_cong) simp_all
  moreover have "day_kept (s\<lparr>playing := False\<rparr>) (try_play_next_in_queue (s\<lparr>playing := False\<rparr>))"
    using steady_try_play_next by (rule steady_day_kept)
  ultimately show ?thesis using Eos by (simp add: handle_def on_eos_def day_kept_trans)
next
  case PipelineError
  have "day_kept s (s\<lparr>playing := False\<rparr>)" by (rule day_kept_cong) simp_all
  moreover have "day_kept (s\<lparr>playing := False\<rparr>) (try_play_next_in_queue (s\<lparr>playing := False\<rparr>))"
    using steady_try_play_next by (rule steady_day_kept)
  ultimately show ?thesis using PipelineError by (simp add: handle_def on_error_def day_kept_trans)
next
  case (ManualTrigger name now)
  then show ?thesis by (simp add: handle_def day_kept_play_manual)
next
  case (ReloadSchedule file_lines)
  with assms show ?thesis by (simp add: same_day_def no_reset_def)
next
  case Seed
  with assms show ?thesis by (simp add: same_day_def)
next
  case (FsChange fs)
  have "day_kept s (s\<lparr>fs_exists := fs\<rparr>)" by (rule day_kept_cong) simp_all
  with FsChange show ?thesis by (simp add: handle_def)
qed

lemma day_kept_run:
  "list_all (same_day (today_key s)) inputs \<Longrightarrow> day_kept s (run inputs s)"
proof (induction inputs arbitrary: s)
  case Nil
  show ?case by simp
next
  case (Cons i rest)
  then have a: "day_kept s (handle i s)" by (simp add: day_kept_handle)
  then have "today_key (handle i s) = today_key s" by (simp add: day_kept_def)
  with Cons have "day_kept (handle i s) (run rest (handle i s))" by simp
  with a show ?case by (simp add: day_kept_trans)
qed

section \<open>Manual triggers\<close>











text \<open>
  Claim C10. While the action \<open>a\<close> is the one recorded as running, a manual
  trigger of \<open>a\<close> starts nothing and only prints a line, also when the last
  trigger is more than a second old; the time of the last trigger is not
  updated. Without the debounce and with another action or none running, the
  trigger runs the action. The scheduler does not look at the running flag:
  an entry that fires with the action \<open>a\<close> while \<open>a\<close> is running reports the
  overlap and starts the steps of \<open>a\<close> from the first.
\<close>

theorem manual_trigger_ignored_while_running:
  "(action_running s \<and> current_action_name s = Some a \<longrightarrow>
      play_manual_action_once a now s
        = (None, emit (if debounced a now s then LogIgnoringRepeat a
                       else LogAlreadyRunningIgnored a) s)) \<and>
   (\<not> debounced a now s \<and> \<not> (action_running s \<and> current_action_name s = Some a) \<longrightarrow>
      play_manual_action_once a now s
        = run_action a (s\<lparr>manual_action_last_trigger :=
                             (manual_action_last_trigger s)(a \<mapsto> now)\<rparr>)) \<and>
   (\<forall>steps. action_running s \<and> current_action_name s = Some a \<and> action e = a \<and> a \<noteq> [] \<and>
      actions_script s a = Some steps \<and> steps \<noteq> [] \<longrightarrow>
      fire_entry idx e s
        = run_steps_chain steps 0
            (emit (LogStarting a)
              ((emit (LogAlreadyRunning (Some a))
                 (show_toast (toast_text e)
                   ((emit (Fired idx) s)\<lparr>today_fired := (today_fired s)(idx \<mapsto> True)\<rparr>)))
               \<lparr>action_running := True, current_action_name := Some a\<rparr>))) \<and>
   (\<forall>steps. actions_script s a = Some steps \<and> steps \<noteq> [] \<longrightarrow>
      run_action a s
        = run_steps_chain steps 0
            (emit (LogStarting a)
              ((if action_running s then emit (LogAlreadyRunning (current_action_name s)) s
                else s)\<lparr>action_running := True, current_action_name := Some a\<rparr>)))"
proof (intro conjI allI impI)
  assume "action_running s \<and> current_action_name s = Some a"
  then show "play_manual_action_once a now s
        = (None, emit (if debounced a now s then LogIgnoringRepeat a
                       else LogAlreadyRunningIgnored a) s)"
    by (simp add: play_manual_action_once_def)
next
  assume "\<not> debounced a now s \<and> \<not> (action_running s \<and> current_action_name s = Some a)"
  then show "play_manual_action_once a now s
        = run_action a (s\<lparr>manual_action_last_trigger :=
                             (manual_action_last_trigger s)(a \<mapsto> now)\<rparr>)"
    by (auto simp: play_manual_action_once_def)
next
  fix steps
  assume h: "action_running s \<and> current_action_name s = Some a \<and> action e = a \<and> a \<noteq> [] \<and>
      actions_script s a = Some steps \<and> steps \<noteq> []"
  then show "fire_entry idx e s
        = run_steps_chain steps 0
            (emit (LogStarting a)
              ((emit (LogAlreadyRunning (Some a))
                 (show_toast (toast_text e)
                   ((emit (Fired idx) s)\<lparr>today_fired := (today_fired s)(idx \<mapsto> True)\<rparr>)))
               \<lparr>action_running := True, current_action_name := Some a\<rparr>))"
    by (simp add: fire_entry_def run_action_def show_toast_def emit_def Let_def)
next
  fix steps
  assume "actions_script s a = Some steps \<and> steps \<noteq> []"
  then show "run_action a s
        = run_steps_chain steps 0
            (emit (LogStarting a)
              ((if action_running s then emit (LogAlreadyRunning (current_action_name s)) s
                else s)\<lparr>action_running := True, current_action_name := Some a\<rparr>))"
    by (simp add: run_action_def Let_def)
qed

theorem manual_trigger_ignored_while_running_witness:
  "\<not> debounced ''GREET'' (at_time 9 0 0 0) running_player \<and>
   play_manual_action_once ''GREET'' (at_time 9 0 0 0) running_player
     = (None, emit (LogAlreadyRunningIgnored ''GREET'') running_player) \<and>
   trace (snd (tick (at_time 9 0 0 0) running_player))
     = [Fired 0, ShowToast ''hello'', LogAlreadyRunning (Some ''GREET''), LogStarting ''GREET'',
        PlayFile ''a.mp4''] \<and>
   trace (snd (fire_entry 0 example_entry running_player))
     = [Fired 0, ShowToast ''hello'', LogAlreadyRunning (Some ''GREET''), LogStarting ''GREET'',
        PlayFile ''a.mp4''] \<and>
   trace (snd (play_manual_action_once ''GREET'' (at_time 9 0 0 0) example_player))
     = [LogStarting ''GREET'', PlayFile ''a.mp4'']"
proof -
  have nd: "\<not> debounced ''GREET'' (at_time 9 0 0 0) running_player"
    by (simp add: debounced_def running_player_def example_defs)
  have run: "action_running running_player \<and> current_action_name running_player = Some ''GREET''"
    by (simp add: running_player_def)
  note T = manual_trigger_ignored_while_running [where s = running_player and a = "''GREET''"
      and now = "at_time 9 0 0 0" and e = example_entry and idx = 0]
  from T [THEN conjunct1, rule_format, OF run] nd
  have a: "play_manual_action_once ''GREET'' (at_time 9 0 0 0) running_player
     = (None, emit (LogAlreadyRunningIgnored ''GREET'') running_player)" by simp
  have h: "action_running running_player \<and> current_action_name running_player = Some ''GREET'' \<and>
      action example_entry = ''GREET'' \<and> ''GREET'' \<noteq> [] \<and>
      actions_script running_player ''GREET'' = Some example_steps \<and> example_steps \<noteq> []"
    by (simp add: running_player_def example_defs)
  note F = T [THEN conjunct2, THEN conjunct2, THEN conjunct1, rule_format, OF h]
  have tk: "trace (snd (tick (at_time 9 0 0 0) running_player))
     = [Fired 0, ShowToast ''hello'', LogAlreadyRunning (Some ''GREET''), LogStarting ''GREET'',
        PlayFile ''a.mp4'']"
    by code_simp
  have "trace (snd (run_steps_chain example_steps 0
            (emit (LogStarting ''GREET'')
              ((emit (LogAlreadyRunning (Some ''GREET''))
                 (show_toast (toast_text example_entry)
                   ((emit (Fired 0) running_player)
                      \<lparr>today_fired := (today_fired running_player)(0 \<mapsto> True)\<rparr>)))
               \<lparr>action_running := True, current_action_name := Some ''GREET''\<rparr>))))
     = [Fired 0, ShowToast ''hello'', LogAlreadyRunning (Some ''GREET''), LogStarting ''GREET'',
        PlayFile ''a.mp4'']"
    by code_simp
  then have b: "trace (snd (fire_entry 0 example_entry running_player))
     = [Fired 0, ShowToast ''hello'', LogAlreadyRunning (Some ''GREET''), LogStarting ''GREET'',
        PlayFile ''a.mp4'']"
    unfolding F by simp
  have nd0: "\<not> debounced ''GREET'' (at_time 9 0 0 0) example_player \<and>
      \<not> (action_running example_player \<and> current_action_name example_player = Some ''GREET'')"
    by (simp add: debounced_def example_defs)
  have "trace (snd (run_action ''GREET'' (example_player\<lparr>manual_action_last_trigger :=
       (manual_action_last_trigger example_player)(''GREET'' \<mapsto> at_time 9 0 0 0)\<rparr>)))
     = [LogStarting ''GREET'', PlayFile ''a.mp4'']"
    by code_simp
  with manual_trigger_ignored_while_running [where s = example_player and a = "''GREET''"
      and now = "at_time 9 0 0 0", THEN conjunct2, THEN conjunct1, rule_format, OF nd0]
  have c: "trace (snd (play_manual_action_once ''GREET'' (at_time 9 0 0 0) example_player))
     = [LogStarting ''GREET'', PlayFile ''a.mp4'']" by simp
  from nd a b tk c show ?thesis by simp
qed

section \<open>The step \<open>WAIT\<close>\<close>












section \<open>The fire check\<close>

text \<open>
  Claim C1 does not hold of the program: the test of \<^verbatim>\<open>_check_and_fire_scheduled\<close>
  is an equality at the resolution of a second. A tick for which the instant
  of every entry that is due on the day and has not fired lies strictly in
  the past fires nothing and changes nothing; the claim has these entries
  fire. An entry fires on the tick whose second is its instant.
\<close>

theorem passed_instant_does_not_fire:
  "(list_all (\<lambda>(idx, e). weekday_flags e ! weekday now = 0 \<or> today_fired s idx = Some True \<or>
       (\<exists>f. fire_dt now e (case today_offsets s idx of None \<Rightarrow> 0 | Some v \<Rightarrow> v) = Inr f \<and>
            to_us f < to_us (no_microsecond now))) xs \<longrightarrow>
      check_entries now xs s = (None, s)) \<and>
   (weekday_flags e ! weekday now \<noteq> 0 \<and> today_fired s idx \<noteq> Some True \<and>
    fire_dt now e (case today_offsets s idx of None \<Rightarrow> 0 | Some v \<Rightarrow> v)
      = Inr (no_microsecond now) \<longrightarrow>
      check_entries now [(idx, e)] s = fire_entry idx e s)"
proof (intro conjI impI)
  show "list_all (\<lambda>(idx, e). weekday_flags e ! weekday now = 0 \<or> today_fired s idx = Some True \<or>
       (\<exists>f. fire_dt now e (case today_offsets s idx of None \<Rightarrow> 0 | Some v \<Rightarrow> v) = Inr f \<and>
            to_us f < to_us (no_microsecond now))) xs \<Longrightarrow>
      check_entries now xs s = (None, s)"
  proof (induction xs)
    case Nil
    show ?case by simp
  next
    case (Cons x xs)
    obtain i e' where x: "x = (i, e')" by (cases x)
    from Cons have rest: "check_entries now xs s = (None, s)" by simp
    from Cons(2) x have "weekday_flags e' ! weekday now = 0 \<or> today_fired s i = Some True \<or>
       (\<exists>f. fire_dt now e' (case today_offsets s i of None \<Rightarrow> 0 | Some v \<Rightarrow> v) = Inr f \<and>
            to_us f < to_us (no_microsecond now))" by simp
    then consider "weekday_flags e' ! weekday now = 0" | "today_fired s i = Some True"
      | f where "fire_dt now e' (case today_offsets s i of None \<Rightarrow> 0 | Some v \<Rightarrow> v) = Inr f"
          "to_us f < to_us (no_microsecond now)" by blast
    then show ?case
    proof cases
      case 1
      with rest x show ?thesis by simp
    next
      case 2
      with rest x show ?thesis by simp
    next
      case 3
      from 3(2) have "no_microsecond now \<noteq> f" by auto
      with 3(1) rest x show ?thesis by simp
    qed
  qed
next
  assume "weekday_flags e ! weekday now \<noteq> 0 \<and> today_fired s idx \<noteq> Some True \<and>
    fire_dt now e (case today_offsets s idx of None \<Rightarrow> 0 | Some v \<Rightarrow> v)
      = Inr (no_microsecond now)"
  then show "check_entries now [(idx, e)] s = fire_entry idx e s"
    by (cases "fire_entry idx e s") (auto split: option.splits)
qed

theorem passed_instant_does_not_fire_witness:
  "today_fired example_player 0 = Some False \<and>
   weekday_flags example_entry ! weekday (at_time 9 0 1 5) = 1 \<and>
   fire_dt (at_time 9 0 1 5) example_entry 0 = Inr (at_time 9 0 0 0) \<and>
   to_us (at_time 9 0 0 0) < to_us (no_microsecond (at_time 9 0 1 5)) \<and>
   tick (at_time 9 0 1 5) example_player = (None, example_player) \<and>
   trace (snd (tick (at_time 9 0 0 5) example_player))
     = [Fired 0, ShowToast ''hello'', LogStarting ''GREET'', PlayFile ''a.mp4''] \<and>
   fst (check_entries_v11 (at_time 9 0 1 5) (enumerate 0 (schedule example_player)) example_player)
     = Some StrDatetimeCompare"
proof -
  have off: "today_offsets example_player 0 = Some 0" by (simp add: example_defs)
  have fl: "today_fired example_player 0 = Some False" by (simp add: example_defs)
  have sch: "enumerate 0 (schedule example_player) = [(0, example_entry)]"
    by (simp add: example_defs)
  have wd: "weekday_flags example_entry ! weekday (at_time 9 0 1 5) = 1" by code_simp
  have fd: "fire_dt (at_time 9 0 1 5) example_entry 0 = Inr (at_time 9 0 0 0)"
    by (simp add: fire_dt_def replace_hm_def add_minutes_def at_time_def example_entry_def)
  have lt: "to_us (at_time 9 0 0 0) < to_us (no_microsecond (at_time 9 0 1 5))"
    by (simp add: to_us_def no_microsecond_def at_time_def)
  have "list_all (\<lambda>(idx, e). weekday_flags e ! weekday (at_time 9 0 1 5) = 0 \<or>
       today_fired example_player idx = Some True \<or>
       (\<exists>f. fire_dt (at_time 9 0 1 5) e
               (case today_offsets example_player idx of None \<Rightarrow> 0 | Some v \<Rightarrow> v) = Inr f \<and>
            to_us f < to_us (no_microsecond (at_time 9 0 1 5)))) [(0, example_entry)]"
    using fd lt off by simp
  from passed_instant_does_not_fire [where now = "at_time 9 0 1 5" and s = example_player
      and xs = "[(0, example_entry)]", THEN conjunct1, rule_format, OF this]
  have ce: "check_entries (at_time 9 0 1 5) [(0, example_entry)] example_player
      = (None, example_player)" .
  have tk: "tick (at_time 9 0 1 5) example_player = (None, example_player)"
    using ce sch by (simp add: tick_def check_and_fire_scheduled_def Let_def)
      (simp add: example_defs at_time_def)
  have fire: "trace (snd (tick (at_time 9 0 0 5) example_player))
     = [Fired 0, ShowToast ''hello'', LogStarting ''GREET'', PlayFile ''a.mp4'']"
    by code_simp
  have v11: "fst (check_entries_v11 (at_time 9 0 1 5) (enumerate 0 (schedule example_player))
      example_player) = Some StrDatetimeCompare"
    by code_simp
  from fl wd fd lt tk fire v11 show ?thesis by simp
qed

section \<open>The state of the day\<close>

lemma randint_range:
  assumes "a \<le> b"
  shows "a \<le> fst (randint a b s) \<and> fst (randint a b s) \<le> b"
proof -
  have "0 < nat (b - a + 1)" using assms by simp
  then have "rng_draws s (rng_pos s) mod nat (b - a + 1) < nat (b - a + 1)" by simp
  then have "int (rng_draws s (rng_pos s) mod nat (b - a + 1)) < b - a + 1" using assms by linarith
  then show ?thesis by (simp add: randint_def)
qed

text \<open>One round of the loop of \<^verbatim>\<open>_seed_today_offsets\<close>.\<close>

lemma seed_entries_Cons:
  "\<exists>s1. seed_entries ((idx, e) # rest) s = seed_entries rest s1 \<and>
        today_fired s1 = (today_fired s)(idx \<mapsto> False) \<and>
        (case today_offsets s idx of
           Some v \<Rightarrow> today_offsets s1 = today_offsets s
         | None \<Rightarrow> (\<exists>off. today_offsets s1 = (today_offsets s)(idx \<mapsto> off) \<and>
                         0 \<le> off \<and> off \<le> max 0 (random_minutes e)))"
proof (cases "today_offsets s idx")
  case (Some v)
  then show ?thesis by (intro exI [of _ "s\<lparr>today_fired := (today_fired s)(idx \<mapsto> False)\<rparr>"]) simp
next
  case None
  show ?thesis
  proof (cases "max 0 (random_minutes e) > 0")
    case True
    define off where "off = fst (randint 0 (max 0 (random_minutes e)) s)"
    define s1 where "s1 = s\<lparr>rng_pos := rng_pos s + 1,
        today_offsets := (today_offsets s)(idx \<mapsto> off),
        today_fired := (today_fired s)(idx \<mapsto> False)\<rparr>"
    have "seed_entries ((idx, e) # rest) s = seed_entries rest s1"
      using None True by (simp add: s1_def off_def Let_def randint_def)
    moreover have "0 \<le> off \<and> off \<le> max 0 (random_minutes e)"
      unfolding off_def by (rule randint_range) simp
    ultimately show ?thesis using None by (intro exI [of _ s1]) (auto simp: s1_def)
  next
    case False
    define s1 where "s1 = s\<lparr>today_offsets := (today_offsets s)(idx \<mapsto> 0),
        today_fired := (today_fired s)(idx \<mapsto> False)\<rparr>"
    have "seed_entries ((idx, e) # rest) s = seed_entries rest s1"
      using None False by (simp add: s1_def Let_def)
    then show ?thesis using None by (intro exI [of _ s1]) (auto simp: s1_def)
  qed
qed

lemma seed_entries_keeps:
  "today_offsets s i = Some v \<Longrightarrow> today_offsets (seed_entries xs s) i = Some v"
proof (induction xs arbitrary: s)
  case Nil
  then show ?case by simp
next
  case (Cons x xs)
  obtain idx e where x: "x = (idx, e)" by (cases x)
  from seed_entries_Cons [of idx e xs s] obtain s1 where
    s1: "seed_entries ((idx, e) # xs) s = seed_entries xs s1"
    and o: "case today_offsets s idx of
           Some v \<Rightarrow> today_offsets s1 = today_offsets s
         | None \<Rightarrow> (\<exists>off. today_offsets s1 = (today_offsets s)(idx \<mapsto> off) \<and>
                         0 \<le> off \<and> off \<le> max 0 (random_minutes e))" by blast
  have "today_offsets s1 i = Some v"
    using o Cons(2) by (cases "today_offsets s idx") auto
  then show ?case using Cons(1) [of s1] s1 x by simp
qed

lemma seed_entries_fired:
  "today_fired (seed_entries xs s) i
     = (if i \<in> fst ` set xs then Some False else today_fired s i)"
proof (induction xs arbitrary: s)
  case Nil
  show ?case by simp
next
  case (Cons x xs)
  obtain idx e where x: "x = (idx, e)" by (cases x)
  from seed_entries_Cons [of idx e xs s] obtain s1 where
    s1: "seed_entries ((idx, e) # xs) s = seed_entries xs s1"
    and f: "today_fired s1 = (today_fired s)(idx \<mapsto> False)" by blast
  show ?case using Cons [of s1] s1 f x by auto
qed

lemma seed_entries_range:
  assumes "distinct (map fst xs)" "(i, e) \<in> set xs" "today_offsets s i = None"
  shows "\<exists>v. today_offsets (seed_entries xs s) i = Some v \<and> 0 \<le> v \<and>
             v \<le> max 0 (random_minutes e)"
  using assms
proof (induction xs arbitrary: s)
  case Nil
  then show ?case by simp
next
  case (Cons x xs)
  obtain idx e' where x: "x = (idx, e')" by (cases x)
  from seed_entries_Cons [of idx e' xs s] obtain s1 where
    s1: "seed_entries ((idx, e') # xs) s = seed_entries xs s1"
    and o: "case today_offsets s idx of
           Some v \<Rightarrow> today_offsets s1 = today_offsets s
         | None \<Rightarrow> (\<exists>off. today_offsets s1 = (today_offsets s)(idx \<mapsto> off) \<and>
                         0 \<le> off \<and> off \<le> max 0 (random_minutes e'))" by blast
  show ?case
  proof (cases "idx = i")
    case True
    have "i \<notin> fst ` set xs" using Cons(2) x True by simp
    then have "(i, e) \<notin> set xs" by force
    with Cons(3) x True have e: "e' = e" by simp
    from o Cons(4) True obtain off where
      "today_offsets s1 i = Some off" "0 \<le> off" "off \<le> max 0 (random_minutes e')" by auto
    then show ?thesis using seed_entries_keeps [of s1 i off xs] s1 x e by auto
  next
    case False
    then have "(i, e) \<in> set xs" using Cons(3) x by simp
    moreover have "today_offsets s1 i = None"
      using o Cons(4) False by (cases "today_offsets s idx") auto
    moreover have "distinct (map fst xs)" using Cons(2) by simp
    ultimately show ?thesis using Cons(1) [of s1] s1 x by simp
  qed
qed

lemma seed_entries_present:
  "i \<in> fst ` set xs \<Longrightarrow> today_offsets (seed_entries xs s) i \<noteq> None"
proof (induction xs arbitrary: s)
  case Nil
  then show ?case by simp
next
  case (Cons x xs)
  obtain idx e where x: "x = (idx, e)" by (cases x)
  from seed_entries_Cons [of idx e xs s] obtain s1 where
    s1: "seed_entries ((idx, e) # xs) s = seed_entries xs s1"
    and o: "case today_offsets s idx of
           Some v \<Rightarrow> today_offsets s1 = today_offsets s
         | None \<Rightarrow> (\<exists>off. today_offsets s1 = (today_offsets s)(idx \<mapsto> off) \<and>
                         0 \<le> off \<and> off \<le> max 0 (random_minutes e))" by blast
  show ?case
  proof (cases "idx = i")
    case True
    from o True obtain v where "today_offsets s1 i = Some v"
      by (cases "today_offsets s idx") auto
    then show ?thesis using seed_entries_keeps [of s1 i v xs] s1 x by simp
  next
    case False
    with Cons(2) x have "i \<in> fst ` set xs" by auto
    then show ?thesis using Cons(1) [of s1] s1 x by simp
  qed
qed

lemma seed_entries_fixed:
  "\<forall>i \<in> fst ` set xs. today_offsets s i \<noteq> None \<and> today_fired s i = Some False \<Longrightarrow>
   seed_entries xs s = s"
proof (induction xs)
  case Nil
  show ?case by simp
next
  case (Cons x xs)
  obtain idx e where x: "x = (idx, e)" by (cases x)
  from Cons(2) x have a: "today_offsets s idx \<noteq> None" "today_fired s idx = Some False" by simp_all
  then have "(today_fired s)(idx \<mapsto> False) = today_fired s" by (simp add: fun_upd_idem)
  then have "seed_entries (x # xs) s = seed_entries xs s" using a x by auto
  then show ?case using Cons by simp
qed

lemma seed_today_offsets_idem:
  "seed_today_offsets False (seed_today_offsets f s) = seed_today_offsets f s"
proof -
  define s0 where "s0 = (if f then s\<lparr>today_offsets := Map.empty, today_fired := Map.empty\<rparr> else s)"
  define xs where "xs = enumerate 0 (schedule s)"
  define t where "t = seed_entries xs s0"
  have t: "seed_today_offsets f s = t" by (simp add: seed_today_offsets_def t_def xs_def s0_def)
  from seed_today_offsets_shape [of f s] t have sch: "schedule t = schedule s" by auto
  have "\<forall>i \<in> fst ` set xs. today_offsets t i \<noteq> None \<and> today_fired t i = Some False"
    unfolding t_def using seed_entries_present [of _ xs s0] seed_entries_fired [of xs s0] by simp
  then have "seed_entries xs t = t" by (rule seed_entries_fixed)
  then show ?thesis unfolding t by (simp add: seed_today_offsets_def sch xs_def)
qed

lemma offsets_kept_handle:
  assumes "no_reset (today_key s) i" "today_offsets s j = Some v"
  shows "today_offsets (handle i s) j = Some v \<and> today_key (handle i s) = today_key s"
proof (cases "i = Seed")
  case True
  from seed_today_offsets_shape [of False s]
  have "today_key (seed_today_offsets False s) = today_key s" by auto
  moreover have "today_offsets (seed_today_offsets False s) j = Some v"
    using assms(2) by (simp add: seed_today_offsets_def seed_entries_keeps)
  ultimately show ?thesis using True by (simp add: handle_def)
next
  case False
  with assms(1) have "same_day (today_key s) i" by (simp add: same_day_def)
  then have "day_kept s (handle i s)" by (rule day_kept_handle)
  then show ?thesis using assms(2) by (simp add: day_kept_def)
qed

lemma offsets_kept_run:
  "list_all (no_reset (today_key s)) inputs \<Longrightarrow> today_offsets s j = Some v \<Longrightarrow>
   today_offsets (run inputs s) j = Some v"
proof (induction inputs arbitrary: s)
  case Nil
  then show ?case by simp
next
  case (Cons i rest)
  then have "today_offsets (handle i s) j = Some v \<and> today_key (handle i s) = today_key s"
    by (simp add: offsets_kept_handle)
  with Cons show ?case by simp
qed

text \<open>
  Claim C5, as stated, fails in two places. A reload of the schedule seeds by
  force on the date it is asked for: below, the entry with the bound 5 has
  the offset 2 after the seeding of start-up and the offset 3 after a reload
  of the same file on the same date. And the loader accepts a negative
  number as a random bound: the offset is then 0, outside the empty range
  from 0 to the bound.
\<close>

theorem reload_samples_again:
  "load_schedule jitter_lines = schedule jitter_player \<and>
   today_offsets (seed_today_offsets False jitter_player) 0 = Some 2 \<and>
   today_key (handle (ReloadSchedule jitter_lines) (seed_today_offsets False jitter_player))
     = today_key (seed_today_offsets False jitter_player) \<and>
   today_offsets (handle (ReloadSchedule jitter_lines) (seed_today_offsets False jitter_player)) 0
     = Some 3 \<and>
   map random_minutes
     (load_schedule [[], [''1'', ''1'', ''1'', ''1'', ''1'', ''1'', ''1'', ''9'', ''0'', ''-5'',
                          ''60'', ''hello'', ''GREET'', ''FF'']]) = [- 5] \<and>
   today_offsets (seed_today_offsets False
       (blank_player\<lparr>schedule :=
          load_schedule [[], [''1'', ''1'', ''1'', ''1'', ''1'', ''1'', ''1'', ''9'', ''0'', ''-5'',
                              ''60'', ''hello'', ''GREET'', ''FF'']]\<rparr>)) 0 = Some 0"
  by code_simp

text \<open>
  Claim C5, amended. A seeding gives every entry that has no offset yet (every
  entry, when the seeding is forced) an offset between 0 and the random bound
  of the entry, 0 for a bound that is not positive. A seeding that is not
  forced leaves every offset that exists as it is, and a second one right
  after a seeding changes nothing at all: the same offsets, the same fired
  flags, no number drawn. Over every sequence of inputs without a tick on
  another date and without a reload of the schedule (the two forced
  seedings), seeding calls included, an offset stays what it is.
\<close>

theorem daily_offset_sampled_once:
  "(\<forall>i. i < length (schedule s) \<and> (f \<or> today_offsets s i = None) \<longrightarrow>
      (\<exists>v. today_offsets (seed_today_offsets f s) i = Some v \<and> 0 \<le> v \<and>
           v \<le> max 0 (random_minutes (schedule s ! i)) \<and>
           (random_minutes (schedule s ! i) \<le> 0 \<longrightarrow> v = 0))) \<and>
   (\<forall>i v. today_offsets s i = Some v \<longrightarrow>
      today_offsets (seed_today_offsets False s) i = Some v) \<and>
   seed_today_offsets False (seed_today_offsets f s) = seed_today_offsets f s \<and>
   (\<forall>inputs i v. list_all (no_reset (today_key s)) inputs \<and> today_offsets s i = Some v \<longrightarrow>
      today_offsets (run inputs s) i = Some v)"
proof (intro conjI allI impI)
  fix i assume h: "i < length (schedule s) \<and> (f \<or> today_offsets s i = None)"
  define s0 where "s0 = (if f then s\<lparr>today_offsets := Map.empty, today_fired := Map.empty\<rparr> else s)"
  have n: "today_offsets s0 i = None" using h by (auto simp: s0_def)
  have m: "(i, schedule s ! i) \<in> set (enumerate 0 (schedule s))"
    using h by (simp add: in_set_enumerate_eq)
  have d: "distinct (map fst (enumerate 0 (schedule s)))" by simp
  from seed_entries_range [OF d m n] obtain v where
    v: "today_offsets (seed_entries (enumerate 0 (schedule s)) s0) i = Some v" "0 \<le> v"
      "v \<le> max 0 (random_minutes (schedule s ! i))" by blast
  have "seed_today_offsets f s = seed_entries (enumerate 0 (schedule s)) s0"
    by (simp add: seed_today_offsets_def s0_def)
  with v show "\<exists>v. today_offsets (seed_today_offsets f s) i = Some v \<and> 0 \<le> v \<and>
           v \<le> max 0 (random_minutes (schedule s ! i)) \<and>
           (random_minutes (schedule s ! i) \<le> 0 \<longrightarrow> v = 0)" by auto
next
  fix i v assume "today_offsets s i = Some v"
  then show "today_offsets (seed_today_offsets False s) i = Some v"
    by (simp add: seed_today_offsets_def seed_entries_keeps)
next
  show "seed_today_offsets False (seed_today_offsets f s) = seed_today_offsets f s"
    by (rule seed_today_offsets_idem)
next
  fix inputs i v
  assume "list_all (no_reset (today_key s)) inputs \<and> today_offsets s i = Some v"
  then show "today_offsets (run inputs s) i = Some v" by (simp add: offsets_kept_run)
qed

theorem daily_offset_sampled_once_witness:
  "today_offsets jitter_player 0 = None \<and>
   random_minutes (schedule jitter_player ! 0) = 5 \<and>
   today_offsets (seed_today_offsets False jitter_player) 0 = Some 2 \<and>
   seed_today_offsets False (seed_today_offsets False jitter_player)
     = seed_today_offsets False jitter_player \<and>
   today_offsets
     (run [Tick (at_time 9 0 0 5), Seed, ManualTrigger ''GREET'' (at_time 9 0 0 7),
           Tick (at_time 9 2 0 0), Seed]
        (seed_today_offsets False jitter_player)) 0 = Some 2"
proof -
  define sp where "sp = seed_today_offsets False jitter_player"
  have n: "today_offsets jitter_player 0 = None"
    by (simp add: jitter_player_def blank_player_def)
  have r: "random_minutes (schedule jitter_player ! 0) = 5"
    by (simp add: jitter_player_def blank_player_def)
  have h: "0 < length (schedule jitter_player) \<and> (False \<or> today_offsets jitter_player 0 = None)"
    using n by (simp add: jitter_player_def blank_player_def)
  note T = daily_offset_sampled_once [where s = jitter_player and f = False]
  from T [THEN conjunct1, rule_format, OF h] r
  obtain v where v: "today_offsets sp 0 = Some v" "0 \<le> v" "v \<le> 5"
    unfolding sp_def by auto
  have "today_offsets sp 0 = Some 2" unfolding sp_def by code_simp
  with v have o: "today_offsets sp 0 = Some 2" by simp
  have idem: "seed_today_offsets False sp = sp"
    unfolding sp_def by (rule T [THEN conjunct2, THEN conjunct2, THEN conjunct1])
  have k: "today_key sp = 739000" unfolding sp_def by code_simp
  have "list_all (no_reset (today_key sp))
          [Tick (at_time 9 0 0 5), Seed, ManualTrigger ''GREET'' (at_time 9 0 0 7),
           Tick (at_time 9 2 0 0), Seed] \<and> today_offsets sp 0 = Some 2"
    using o by (simp add: k no_reset_def at_time_def)
  from daily_offset_sampled_once [where s = sp, THEN conjunct2, THEN conjunct2, THEN conjunct2,
      rule_format, OF this]
  have "today_offsets
     (run [Tick (at_time 9 0 0 5), Seed, ManualTrigger ''GREET'' (at_time 9 0 0 7),
           Tick (at_time 9 2 0 0), Seed] sp) 0 = Some 2" .
  with n r o idem show ?thesis unfolding sp_def by simp
qed

text \<open>
  Claim C2, as stated, fails across a seeding call. The entry of the example
  fires on the tick at 09:00:00; a seeding, forced or not, puts its flag back
  to false on the same date, and a second tick within the same second fires
  the entry again.
\<close>

theorem seeding_resets_fired_flag:
  "today_fired (snd (tick (at_time 9 0 0 5) example_player)) 0 = Some True \<and>
   today_fired (handle Seed (snd (tick (at_time 9 0 0 5) example_player))) 0 = Some False \<and>
   today_key (handle Seed (snd (tick (at_time 9 0 0 5) example_player)))
     = today_key example_player \<and>
   fired_count 0 (run [Tick (at_time 9 0 0 5), Seed, Tick (at_time 9 0 0 900)] example_player) = 2 \<and>
   load_schedule example_lines = schedule example_player \<and>
   fired_count 0 (run [Tick (at_time 9 0 0 5), ReloadSchedule example_lines,
                       Tick (at_time 9 0 0 900)] example_player) = 2"
  by code_simp

text \<open>
  Claim C2, amended. Over every sequence of inputs without a seeding call (a
  tick on another date and a reload of the schedule seed by force, the
  start-up seeds without), a fired flag that is true stays true and its entry
  does not fire again; every entry fires at most once, and the flag of an
  entry that has fired is true. Every seeding call, forced or not, sets the
  flag of every entry of the schedule to false.
\<close>

theorem fired_flag_monotone:
  "(list_all (same_day (today_key s)) inputs \<longrightarrow>
      (\<forall>i. today_fired s i = Some True \<longrightarrow>
           today_fired (run inputs s) i = Some True \<and>
           fired_count i (run inputs s) = fired_count i s) \<and>
      (\<forall>i. fired_count i s \<le> fired_count i (run inputs s) \<and>
           fired_count i (run inputs s) \<le> fired_count i s + 1) \<and>
      (\<forall>i. fired_count i s < fired_count i (run inputs s) \<longrightarrow>
           today_fired (run inputs s) i = Some True)) \<and>
   (\<forall>i < length (schedule s). today_fired (seed_today_offsets f s) i = Some False)"
proof (intro conjI allI impI)
  fix i assume "i < length (schedule s)"
  then have "(i, schedule s ! i) \<in> set (enumerate 0 (schedule s))"
    by (simp add: in_set_enumerate_eq)
  then have "i \<in> fst ` set (enumerate 0 (schedule s))" by force
  then show "today_fired (seed_today_offsets f s) i = Some False"
    by (simp add: seed_today_offsets_def seed_entries_fired)
next
  fix i
  assume "list_all (same_day (today_key s)) inputs"
  then have d: "day_kept s (run inputs s)" by (rule day_kept_run)
  then have b: "fire_budget i (run inputs s) \<le> fire_budget i s"
    and m: "fired_count i s \<le> fired_count i (run inputs s)"
    by (simp_all add: day_kept_def)
  show "fired_count i s \<le> fired_count i (run inputs s)" by (rule m)
  show "fired_count i (run inputs s) \<le> fired_count i s + 1"
    using b by (simp add: fire_budget_def split: if_splits)
  {
    assume t: "today_fired s i = Some True"
    with d show "today_fired (run inputs s) i = Some True" by (simp add: day_kept_def)
    from b m t show "fired_count i (run inputs s) = fired_count i s"
      by (simp add: fire_budget_def split: if_splits)
  }
  {
    assume "fired_count i s < fired_count i (run inputs s)"
    with b show "today_fired (run inputs s) i = Some True"
      by (simp add: fire_budget_def split: if_splits)
  }
qed

theorem fired_flag_monotone_witness:
  "fired_count 0 example_player = 0 \<and>
   fired_count 0 (run [Tick (at_time 9 0 0 5), IdleDispatch 1, Tick (at_time 9 0 0 900),
                       ManualTrigger ''GREET'' (at_time 9 0 0 950), Eos,
                       Tick (at_time 9 0 1 0)] example_player) = 1 \<and>
   today_fired (run [Tick (at_time 9 0 0 5), IdleDispatch 1, Tick (at_time 9 0 0 900),
                     ManualTrigger ''GREET'' (at_time 9 0 0 950), Eos,
                     Tick (at_time 9 0 1 0)] example_player) 0 = Some True \<and>
   today_fired (seed_today_offsets True example_player) 0 = Some False"
proof -
  define inputs where "inputs = [Tick (at_time 9 0 0 5), IdleDispatch 1, Tick (at_time 9 0 0 900),
                       ManualTrigger ''GREET'' (at_time 9 0 0 950), Eos,
                       Tick (at_time 9 0 1 0)]"
  have k: "today_key example_player = 739000" by (simp add: example_defs)
  have h: "list_all (same_day (today_key example_player)) inputs"
    by (simp add: k inputs_def same_day_def no_reset_def at_time_def)
  have c0: "fired_count 0 example_player = 0"
    by (simp add: fired_count_def example_player_fields)
  have c1: "fired_count 0 (run inputs example_player) = 1" unfolding inputs_def by code_simp
  note T = fired_flag_monotone [where s = example_player and inputs = inputs and f = True]
  from T [THEN conjunct1, rule_format, OF h] c0 c1
  have fl: "today_fired (run inputs example_player) 0 = Some True" by simp
  have "0 < length (schedule example_player)" by (simp add: example_defs)
  with T [THEN conjunct2]
  have sd: "today_fired (seed_today_offsets True example_player) 0 = Some False" by blast
  from c0 c1 fl sd show ?thesis unfolding inputs_def by simp
qed

end
